theory Spec2Isabelle
  imports Complex_Main "HOL-Library.Word" "HOL-Library.Monad_Syntax" "HOL-Library.AList"
begin

section \<open>Benchmark harness (benchmark/runner.go)\<close>

text \<open>
  A benchmark worker is sequential code whose only inputs from the outside world are the
  readings it takes: the allocator statistics, the clock, the random source and the state
  of the stop channel at each poll. They are collected in an environment record, so that
  a worker becomes a function from the environment and the dataset to the list of results
  it hands to the callback, in order.

  \<open>Duration\<close> and \<open>OpsPerSec\<close> are float64 in the source. They are carried as reals read
  from the environment; \<open>OpsPerSec\<close> is \<open>None\<close> where the float64 division has a zero
  divisor. No property below depends on their values.
\<close>

record BenchmarkResult =
  Structure :: string
  Operation :: string
  DataSize :: int
  Duration :: real
  MemoryUsed :: "64 word"
  OpsPerSec :: "real option"
  Progress :: int
  Completed :: bool

record env =
  startMem :: "64 word"          \<comment> \<open>getMemoryUsage() on entry of runSingleBenchmark\<close>
  endMem :: "64 word"            \<comment> \<open>getMemoryUsage() after the structure's loop\<close>
  memAt :: "nat \<Rightarrow> 64 word"      \<comment> \<open>getMemoryUsage() in the report of element i\<close>
  sinceAt :: "nat \<Rightarrow> real"       \<comment> \<open>time.Since(startTime) in ms in the report of element i\<close>
  sinceEnd :: real               \<comment> \<open>time.Since(startTime) in ms after the loop\<close>
  stopped :: "nat \<Rightarrow> bool"       \<comment> \<open>whether r.stopChan is closed at the poll before element i\<close>

definition progressResult :: "env \<Rightarrow> string \<Rightarrow> string \<Rightarrow> int list \<Rightarrow> nat \<Rightarrow> BenchmarkResult" where
  "progressResult e name operation data i =
     \<lparr>Structure = name, Operation = operation, DataSize = int (length data),
      Duration = sinceAt e i, MemoryUsed = memAt e i, OpsPerSec = Some 0,
      Progress = (int i * 100) div int (length data), Completed = False\<rparr>"

text \<open>
  The four loops \<open>benchmarkHashMap\<close>, \<open>benchmarkBTree\<close>, \<open>benchmarkRBTree\<close> and
  \<open>benchmarkAVLTree\<close> share one skeleton: poll the stop channel, apply the operation to the
  container, report every \<open>reportInterval\<close> elements. The container (\<open>'c\<close>, updated by
  \<open>ins\<close> on an insert, only read on a search) never reaches a result.
\<close>

fun benchmarkLoop ::
  "env \<Rightarrow> string \<Rightarrow> ('c \<Rightarrow> int \<Rightarrow> 'c) \<Rightarrow> string \<Rightarrow> int list \<Rightarrow> nat \<Rightarrow> nat \<Rightarrow> 'c \<Rightarrow> int list
   \<Rightarrow> BenchmarkResult list" where
  "benchmarkLoop e name ins operation data reportInterval i m [] = []"
| "benchmarkLoop e name ins operation data reportInterval i m (v # rest) =
     (if stopped e i then []
      else
        (if 0 < i \<and> i mod reportInterval = 0
         then [progressResult e name operation data i] else [])
        @ benchmarkLoop e name ins operation data reportInterval (Suc i)
            (if operation = ''insert'' then ins m v else m) rest)"

definition benchmarkHashMap :: "env \<Rightarrow> string \<Rightarrow> int list \<Rightarrow> nat \<Rightarrow> BenchmarkResult list" where
  "benchmarkHashMap e operation data reportInterval =
     benchmarkLoop e ''hashmap'' (\<lambda>(m :: int \<rightharpoonup> int) v. m(v \<mapsto> v))
       operation data reportInterval 0 Map.empty data"

function binarySearchInsertPos :: "int list \<Rightarrow> int \<Rightarrow> nat \<Rightarrow> nat \<Rightarrow> nat" where
  "binarySearchInsertPos arr target left right =
     (if left < right
      then (let mid = (left + right) div 2
            in if arr ! mid < target
               then binarySearchInsertPos arr target (mid + 1) right
               else binarySearchInsertPos arr target left mid)
      else left)"
  by pat_completeness auto
termination
  by (relation "measure (\<lambda>(arr, target, left, right). right - left)") auto

definition btreeInsert :: "int list \<Rightarrow> int \<Rightarrow> int list" where
  "btreeInsert tree v =
     (let idx = binarySearchInsertPos tree v 0 (length tree)
      in take idx tree @ v # drop idx tree)"

definition benchmarkBTree :: "env \<Rightarrow> string \<Rightarrow> int list \<Rightarrow> nat \<Rightarrow> BenchmarkResult list" where
  "benchmarkBTree e operation data reportInterval =
     benchmarkLoop e ''btree'' btreeInsert operation data reportInterval 0 [] data"

definition benchmarkRBTree :: "env \<Rightarrow> string \<Rightarrow> int list \<Rightarrow> nat \<Rightarrow> BenchmarkResult list" where
  "benchmarkRBTree e operation data reportInterval =
     benchmarkLoop e ''rbtree'' (\<lambda>(m :: int set) v. insert v m)
       operation data reportInterval 0 {} data"

definition benchmarkAVLTree :: "env \<Rightarrow> string \<Rightarrow> int list \<Rightarrow> nat \<Rightarrow> BenchmarkResult list" where
  "benchmarkAVLTree e operation data reportInterval =
     benchmarkLoop e ''avltree'' (\<lambda>(m :: int set) v. insert v m)
       operation data reportInterval 0 {} data"

definition finalResult :: "env \<Rightarrow> string \<Rightarrow> string \<Rightarrow> int list \<Rightarrow> BenchmarkResult" where
  "finalResult e structure operation data =
     \<lparr>Structure = structure, Operation = operation, DataSize = int (length data),
      Duration = sinceEnd e, MemoryUsed = endMem e - startMem e,
      OpsPerSec = (if sinceEnd e / 1000 = 0 then None
                   else Some (real (length data) / (sinceEnd e / 1000))),
      Progress = 100, Completed = True\<rparr>"

definition runSingleBenchmark :: "env \<Rightarrow> string \<Rightarrow> string \<Rightarrow> int list \<Rightarrow> BenchmarkResult list" where
  "runSingleBenchmark e structure operation data =
     (let total = length data;
          reportInterval = (if total div 20 < 1 then 1 else total div 20)
      in (if structure = ''hashmap'' then benchmarkHashMap e operation data reportInterval
          else if structure = ''btree'' then benchmarkBTree e operation data reportInterval
          else if structure = ''rbtree'' then benchmarkRBTree e operation data reportInterval
          else if structure = ''avltree'' then benchmarkAVLTree e operation data reportInterval
          else [])
         @ [finalResult e structure operation data])"

text \<open>An environment in which the stop channel is already closed at the first poll.\<close>

definition stoppedEnv :: env where
  "stoppedEnv = \<lparr>startMem = 100, endMem = 40, memAt = (\<lambda>_. 0), sinceAt = (\<lambda>_. 0),
                 sinceEnd = 2, stopped = (\<lambda>_. True)\<rparr>"

section \<open>Steps, snapshots and results (datastructures/snapshot.go)\<close>

datatype NodeColor = Red | Black

datatype StepType =
    StepInsert | StepDelete | StepRotateLeft | StepRotateRight | StepColorChange
  | StepCompare | StepVisit | StepFound | StepNotFound | StepUpdateDist
  | StepSelectNode | StepMarkVisited | StepRebalance | StepComplete

text \<open>
  Descriptions and messages are built by \<open>fmt.Sprintf\<close> from a fixed text and a few
  values. A description is carried as the list of the values formatted into it, in the
  order of the call; a message is \<open>None\<close> where the source leaves the field empty.
\<close>

datatype fmtarg = ArgInt int | ArgStr string | ArgPath "string list"

record TreeNodeSnapshot =
  snapID :: int
  snapValue :: int
  snapColor :: "NodeColor option"
  snapLeftID :: "int option"
  snapRightID :: "int option"
  snapParentID :: "int option"
  snapHeight :: int
  snapX :: real
  snapY :: real

record GraphNodeSnapshot =
  gnID :: string
  gnLabel :: string
  gnX :: real
  gnY :: real
  gnDistance :: "int option"
  gnVisited :: bool
  gnInPath :: bool

record GraphEdgeSnapshot =
  geFrom :: string
  geTo :: string
  geWeight :: int
  geInPath :: bool
  geSelected :: bool

text \<open>
  A step of a graph search carries the snapshot of the graph, a step of the red-black tree
  the snapshot of the tree at the time of the call (\<open>TreeState\<close>, the value of
  \<open>getTreeSnapshot\<close> in \<open>addStep\<close>): \<open>RBStep\<close> extends \<open>Step\<close> by this field. The steps of
  the AVL tree are carried without it, as their kinds, formatted values, node ids and
  highlights: the AVL tree is modelled as a value, and the tree reachable from the root in
  the middle of a recursive call is not. The fields \<open>TargetID\<close>, \<open>Value\<close>, \<open>OldColor\<close> and
  \<open>NewColor\<close>, which no operation sets, are left out. A result is generic in the type of
  its steps.
\<close>

record Step =
  Type :: StepType
  Description :: "fmtarg list"
  NodeID :: "int option"
  GraphNodes :: "GraphNodeSnapshot list"
  GraphEdges :: "GraphEdgeSnapshot list"
  Highlight :: "int list"

record RBStep = Step +
  TreeState :: "TreeNodeSnapshot list"

record 's OperationResult =
  Success :: bool
  Message :: "fmtarg list option"
  Steps :: "'s list"
  FinalTree :: "TreeNodeSnapshot list"
  FinalGraph :: "(GraphNodeSnapshot list \<times> GraphEdgeSnapshot list) option"

section \<open>Traced graph search (datastructures/graph.go)\<close>

record Edge =
  To :: string
  Weight :: int

text \<open>
  \<open>Nodes\<close> is a Go map from node id to adjacency list. It is an association list here, a
  new key going to the end; the order in which Go ranges over the map is unspecified and
  only decides the order of the entries of a snapshot.
\<close>

record Graph =
  Nodes :: "(string \<times> Edge list) list"
  NodeCoords :: "(string \<times> real \<times> real) list"

definition NewGraph :: Graph where
  "NewGraph = \<lparr>Nodes = [], NodeCoords = []\<rparr>"

definition adjacent :: "Graph \<Rightarrow> string \<Rightarrow> Edge list" where
  "adjacent g k = (case map_of (Nodes g) k of None \<Rightarrow> [] | Some es \<Rightarrow> es)"

definition coordsOf :: "Graph \<Rightarrow> string \<Rightarrow> real \<times> real" where
  "coordsOf g k = (case map_of (NodeCoords g) k of None \<Rightarrow> (0, 0) | Some c \<Rightarrow> c)"

definition AddNode :: "string \<Rightarrow> real \<Rightarrow> real \<Rightarrow> Graph \<Rightarrow> Graph" where
  "AddNode k x y g =
     g\<lparr>Nodes := (if map_of (Nodes g) k = None then AList.update k [] (Nodes g) else Nodes g),
       NodeCoords := AList.update k (x, y) (NodeCoords g)\<rparr>"

definition AddEdge :: "string \<Rightarrow> string \<Rightarrow> int \<Rightarrow> Graph \<Rightarrow> Graph" where
  "AddEdge from to weight g =
     (let g1 = g\<lparr>Nodes := AList.update from (adjacent g from @ [\<lparr>To = to, Weight = weight\<rparr>])
                              (Nodes g)\<rparr>
      in g1\<lparr>Nodes := AList.update to (adjacent g1 to @ [\<lparr>To = from, Weight = weight\<rparr>])
                        (Nodes g1)\<rparr>)"

text \<open>Go's \<open>int\<close> is 64 bits wide and its addition wraps.\<close>

definition add64 :: "int \<Rightarrow> int \<Rightarrow> int" where
  "add64 a b = sint (word_of_int a + word_of_int b :: 64 word)"

definition MaxInt32 :: int where
  "MaxInt32 = 2147483647"

subsection \<open>The priority queue\<close>

text \<open>
  \<open>PriorityQueue\<close> implements the interface of \<open>container/heap\<close> of the Go standard
  library, whose \<open>Push\<close>, \<open>Pop\<close>, \<open>up\<close> and \<open>down\<close> are written out below on a list.
  The field \<open>index\<close> of an item is maintained by \<open>Swap\<close>, \<open>Push\<close> and \<open>Pop\<close> and never
  read; it is the position of the item in the list.
\<close>

record PriorityQueueItem =
  node :: string
  priority :: int

type_synonym PriorityQueue = "PriorityQueueItem list"

definition Less :: "PriorityQueue \<Rightarrow> nat \<Rightarrow> nat \<Rightarrow> bool" where
  "Less pq i j = (priority (pq ! i) < priority (pq ! j))"

definition Swap :: "PriorityQueue \<Rightarrow> nat \<Rightarrow> nat \<Rightarrow> PriorityQueue" where
  "Swap pq i j = pq[i := pq ! j, j := pq ! i]"

function up :: "PriorityQueue \<Rightarrow> nat \<Rightarrow> PriorityQueue" where
  "up pq j =
     (let i = (j - 1) div 2
      in if i = j \<or> \<not> Less pq j i then pq else up (Swap pq i j) i)"
  by pat_completeness auto
termination
  by (relation "measure (\<lambda>(pq, j). j)") auto

function down :: "PriorityQueue \<Rightarrow> nat \<Rightarrow> nat \<Rightarrow> PriorityQueue" where
  "down pq i n =
     (let j1 = 2 * i + 1
      in if j1 \<ge> n then pq
         else (let j = (if j1 + 1 < n \<and> Less pq (j1 + 1) j1 then j1 + 1 else j1)
               in if \<not> Less pq j i then pq else down (Swap pq i j) j n))"
  by pat_completeness auto
termination
  by (relation "measure (\<lambda>(pq, i, n). n - i)") auto

definition heapPush :: "PriorityQueue \<Rightarrow> PriorityQueueItem \<Rightarrow> PriorityQueue" where
  "heapPush pq x = up (pq @ [x]) (length pq)"

text \<open>\<open>heapPop\<close> is called on a non-empty queue only: the loop checks \<open>pq.Len() > 0\<close>.\<close>

definition heapPop :: "PriorityQueue \<Rightarrow> PriorityQueueItem \<times> PriorityQueue" where
  "heapPop pq =
     (let n = length pq - 1;
          pq1 = down (Swap pq 0 n) 0 n
      in (pq1 ! n, take n pq1))"

subsection \<open>Dijkstra\<close>

record dstate =
  distances :: "string \<Rightarrow> int"
  previous :: "string \<Rightarrow> string"
  visited :: "string \<Rightarrow> bool"
  pq :: PriorityQueue
  steps :: "Step list"

definition nodeInPath :: "string list \<Rightarrow> string \<Rightarrow> bool" where
  "nodeInPath path k = (k \<in> set path)"

definition edgeInPath :: "string list \<Rightarrow> string \<Rightarrow> string \<Rightarrow> bool" where
  "edgeInPath path from to =
     list_ex (\<lambda>(a, b). (a = from \<and> b = to) \<or> (a = to \<and> b = from)) (zip path (tl path))"

definition edgeSelected :: "(string \<times> string) option \<Rightarrow> string \<Rightarrow> string \<Rightarrow> bool" where
  "edgeSelected currentEdge from to =
     (case currentEdge of None \<Rightarrow> False
      | Some (a, b) \<Rightarrow> (a = from \<and> b = to) \<or> (a = to \<and> b = from))"

text \<open>
  The snapshot of the graph lists nodes and edges in the order in which \<open>range g.Nodes\<close>
  visits the map, which Go leaves unspecified; the model takes the order of insertion.
\<close>

definition graphNodes :: "Graph \<Rightarrow> (string \<Rightarrow> int) \<Rightarrow> (string \<Rightarrow> bool) \<Rightarrow> string list
    \<Rightarrow> GraphNodeSnapshot list" where
  "graphNodes g ds vis path =
     map (\<lambda>(k, es).
            \<lparr>gnID = k, gnLabel = k, gnX = fst (coordsOf g k), gnY = snd (coordsOf g k),
             gnDistance = (if ds k \<noteq> MaxInt32 then Some (ds k) else None),
             gnVisited = vis k, gnInPath = nodeInPath path k\<rparr>)
         (Nodes g)"

definition graphEdges :: "Graph \<Rightarrow> string list \<Rightarrow> (string \<times> string) option
    \<Rightarrow> GraphEdgeSnapshot list" where
  "graphEdges g path currentEdge =
     concat (map (\<lambda>(from, es).
                    map (\<lambda>e. \<lparr>geFrom = from, geTo = To e, geWeight = Weight e,
                               geInPath = edgeInPath path from (To e),
                               geSelected = edgeSelected currentEdge from (To e)\<rparr>) es)
                 (Nodes g))"

definition addStep :: "Graph \<Rightarrow> StepType \<Rightarrow> fmtarg list \<Rightarrow> string list
    \<Rightarrow> (string \<times> string) option \<Rightarrow> dstate \<Rightarrow> dstate" where
  "addStep g stepType desc path currentEdge st =
     st\<lparr>steps := steps st @
          [\<lparr>Type = stepType, Description = desc, NodeID = None,
            GraphNodes = graphNodes g (distances st) (visited st) path,
            GraphEdges = graphEdges g path currentEdge, Highlight = []\<rparr>]\<rparr>"

text \<open>One iteration of the loop over the edges of the selected node \<open>current\<close>.\<close>

definition relaxEdge :: "Graph \<Rightarrow> string \<Rightarrow> dstate \<Rightarrow> Edge \<Rightarrow> dstate" where
  "relaxEdge g current st edge =
     (if visited st (To edge) then st
      else
        (let newDist = add64 (distances st current) (Weight edge);
             edgePtr = Some (current, To edge)
         in if newDist < distances st (To edge)
            then
              (let st1 = st\<lparr>distances := (distances st)(To edge := newDist),
                            previous := (previous st)(To edge := current),
                            pq := heapPush (pq st) \<lparr>node = To edge, priority = newDist\<rparr>\<rparr>
               in addStep g StepUpdateDist
                    [ArgStr (To edge), ArgInt (distances st1 (To edge)), ArgInt newDist,
                     ArgStr current] [] edgePtr st1)
            else
              addStep g StepCompare
                [ArgStr current, ArgStr (To edge), ArgInt newDist,
                 ArgInt (distances st (To edge))] [] edgePtr st))"

partial_function (option) reconstructPath ::
  "(string \<Rightarrow> string) \<Rightarrow> string \<Rightarrow> string list \<Rightarrow> string list option" where
  "reconstructPath prev a path =
     (if a \<noteq> [] then reconstructPath prev (prev a) (a # path) else Some path)"

definition completeResult :: "Graph \<Rightarrow> string \<Rightarrow> string list \<Rightarrow> dstate \<Rightarrow> Step OperationResult" where
  "completeResult g endN path st =
     (let st1 = addStep g StepComplete [ArgPath path, ArgInt (distances st endN)] path None st
      in \<lparr>Success = True, Message = Some [ArgInt (distances st1 endN)], Steps = steps st1,
          FinalTree = [],
          FinalGraph = Some (GraphNodes (last (steps st1)), GraphEdges (last (steps st1)))\<rparr>)"

definition notFoundResult :: "Graph \<Rightarrow> string \<Rightarrow> string \<Rightarrow> dstate \<Rightarrow> Step OperationResult" where
  "notFoundResult g start endN st =
     (let st1 = addStep g StepNotFound [ArgStr start, ArgStr endN] [] None st
      in \<lparr>Success = False, Message = Some [], Steps = steps st1,
          FinalTree = [], FinalGraph = None\<rparr>)"

text \<open>
  The main loop. \<open>None\<close> is a run that does not return (the walk along \<open>previous\<close> never
  reaching the empty string).
\<close>

partial_function (option) dijkstraLoop ::
  "Graph \<Rightarrow> string \<Rightarrow> string \<Rightarrow> dstate \<Rightarrow> Step OperationResult option" where
  "dijkstraLoop g start endN st =
     (if length (pq st) > 0
      then
        (let current = fst (heapPop (pq st));
             st1 = st\<lparr>pq := snd (heapPop (pq st))\<rparr>
         in if visited st1 (node current) then dijkstraLoop g start endN st1
            else
              (let st2 = st1\<lparr>visited := (visited st1)(node current := True)\<rparr>;
                   st3 = addStep g StepSelectNode
                           [ArgStr (node current), ArgInt (distances st2 (node current))]
                           [] None st2
               in if node current = endN
                  then (case reconstructPath (previous st3) endN [] of
                          None \<Rightarrow> None
                        | Some path \<Rightarrow> Some (completeResult g endN path st3))
                  else dijkstraLoop g start endN
                         (foldl (relaxEdge g (node current)) st3 (adjacent g (node current)))))
      else Some (notFoundResult g start endN st))"

definition Dijkstra :: "Graph \<Rightarrow> string \<Rightarrow> string \<Rightarrow> Step OperationResult option" where
  "Dijkstra g start endN =
     (let st0 = \<lparr>distances = (\<lambda>k. if map_of (Nodes g) k \<noteq> None then MaxInt32 else 0)
                                (start := 0),
                 previous = (\<lambda>k. []), visited = (\<lambda>k. False), pq = [], steps = []\<rparr>;
          st1 = addStep g StepVisit [ArgStr start] [] None st0;
          st2 = st1\<lparr>pq := heapPush (pq st1) \<lparr>node = start, priority = 0\<rparr>\<rparr>
      in dijkstraLoop g start endN st2)"

text \<open>The graph of the scenario: nodes A, B, C, D; edges A-B 4, A-C 2, C-B 1, B-D 5, C-D 8.\<close>

definition scenarioGraph :: Graph where
  "scenarioGraph =
     AddEdge ''C'' ''D'' 8 (AddEdge ''B'' ''D'' 5 (AddEdge ''C'' ''B'' 1
       (AddEdge ''A'' ''C'' 2 (AddEdge ''A'' ''B'' 4
         (AddNode ''D'' 0 0 (AddNode ''C'' 0 0 (AddNode ''B'' 0 0 (AddNode ''A'' 0 0
           NewGraph))))))))"

declare reconstructPath.simps [code] dijkstraLoop.simps [code]

text \<open>
  The run of \<open>Dijkstra\<close> seen iteration by iteration. \<open>dijkstraInit\<close> is the state in which the
  main loop is entered. In a state at the head of the loop, \<open>selected\<close> is the node that
  \<open>heap.Pop\<close> returns and \<open>afterSelect\<close> the state after it was marked visited and the
  Select-Node step was emitted; \<open>edgeLoopState g st i\<close> is the state in which the loop over
  the edges of the selected node examines the edge at position \<open>i\<close> (for \<open>i\<close> the number of
  edges, the state in which it ends). \<open>loopNext\<close> is one iteration of the main loop, \<open>None\<close>
  when the iteration returns from \<open>Dijkstra\<close>, and \<open>loopStateAt g start end n\<close> the state at
  the head of iteration \<open>n\<close>, \<open>None\<close> when the run has returned before.
\<close>

definition dijkstraInit :: "Graph \<Rightarrow> string \<Rightarrow> dstate" where
  "dijkstraInit g start =
     (let st0 = \<lparr>distances = (\<lambda>k. if map_of (Nodes g) k \<noteq> None then MaxInt32 else 0)
                                (start := 0),
                 previous = (\<lambda>k. []), visited = (\<lambda>k. False), pq = [], steps = []\<rparr>;
          st1 = addStep g StepVisit [ArgStr start] [] None st0
      in st1\<lparr>pq := heapPush (pq st1) \<lparr>node = start, priority = 0\<rparr>\<rparr>)"

definition selected :: "dstate \<Rightarrow> string" where
  "selected st = node (fst (heapPop (pq st)))"

definition afterSelect :: "Graph \<Rightarrow> dstate \<Rightarrow> dstate" where
  "afterSelect g st =
     (let st1 = st\<lparr>pq := snd (heapPop (pq st))\<rparr>;
          st2 = st1\<lparr>visited := (visited st1)(selected st := True)\<rparr>
      in addStep g StepSelectNode [ArgStr (selected st), ArgInt (distances st2 (selected st))]
           [] None st2)"

definition edgeLoopState :: "Graph \<Rightarrow> dstate \<Rightarrow> nat \<Rightarrow> dstate" where
  "edgeLoopState g st i =
     foldl (relaxEdge g (selected st)) (afterSelect g st) (take i (adjacent g (selected st)))"

definition loopNext :: "Graph \<Rightarrow> string \<Rightarrow> dstate \<Rightarrow> dstate option" where
  "loopNext g endN st =
     (if pq st = [] then None
      else if visited st (selected st) then Some (st\<lparr>pq := snd (heapPop (pq st))\<rparr>)
      else if selected st = endN then None
      else Some (edgeLoopState g st (length (adjacent g (selected st)))))"

fun loopStateAt :: "Graph \<Rightarrow> string \<Rightarrow> string \<Rightarrow> nat \<Rightarrow> dstate option" where
  "loopStateAt g start endN 0 = Some (dijkstraInit g start)"
| "loopStateAt g start endN (Suc n) =
     (case loopStateAt g start endN n of None \<Rightarrow> None | Some st \<Rightarrow> loopNext g endN st)"

section \<open>Traced AVL tree (datastructures/avltree.go)\<close>

text \<open>
  An AVL node is reached through exactly one pointer (the root field or one child field of
  its parent; there are no parent links and no sentinel), so a tree is a datatype and the
  in-place updates of the source are the rebuilt nodes of the model. A nil dereference is
  the result \<open>None\<close>. \<open>NodeID\<close> of a step is the id that the node it points to has when the
  operation returns (see \<open>avl_repoint\<close> below).
\<close>

datatype AVLNode =
    ANil
  | ANode (aID: int) (aValue: int) (aHeight: int) (aLeft: AVLNode) (aRight: AVLNode)

record AVLTree =
  avlRoot :: AVLNode
  avlNextID :: int
  avlSteps :: "Step list"

definition NewAVLTree :: AVLTree where
  "NewAVLTree = \<lparr>avlRoot = ANil, avlNextID = 0, avlSteps = []\<rparr>"

definition treeStep :: "StepType \<Rightarrow> fmtarg list \<Rightarrow> int option \<Rightarrow> int list \<Rightarrow> Step" where
  "treeStep stepType desc nodeID highlights =
     \<lparr>Type = stepType, Description = desc, NodeID = nodeID,
      GraphNodes = [], GraphEdges = [], Highlight = highlights\<rparr>"

definition avl_clearSteps :: "AVLTree \<Rightarrow> AVLTree" where
  "avl_clearSteps t = t\<lparr>avlSteps := []\<rparr>"

definition avl_addStep :: "StepType \<Rightarrow> fmtarg list \<Rightarrow> int option \<Rightarrow> int list \<Rightarrow> AVLTree \<Rightarrow> AVLTree" where
  "avl_addStep stepType desc nodeID highlights t =
     t\<lparr>avlSteps := avlSteps t @ [treeStep stepType desc nodeID highlights]\<rparr>"

fun avl_idOf :: "AVLNode \<Rightarrow> int option" where
  "avl_idOf ANil = None"
| "avl_idOf (ANode i v h l r) = Some i"

fun avl_valueOf :: "AVLNode \<Rightarrow> int option" where
  "avl_valueOf ANil = None"
| "avl_valueOf (ANode i v h l r) = Some v"

fun avl_inorderSnapshot :: "AVLNode \<Rightarrow> nat \<Rightarrow> real \<Rightarrow> real \<Rightarrow> TreeNodeSnapshot list" where
  "avl_inorderSnapshot ANil depth xMin xMax = []"
| "avl_inorderSnapshot (ANode i v h l r) depth xMin xMax =
     (let x = (xMin + xMax) / 2;
          y = real (depth * 80 + 50)
      in \<lparr>snapID = i, snapValue = v, snapColor = None, snapLeftID = avl_idOf l,
           snapRightID = avl_idOf r, snapParentID = None, snapHeight = h,
           snapX = x, snapY = y\<rparr>
         # avl_inorderSnapshot l (depth + 1) xMin x
         @ avl_inorderSnapshot r (depth + 1) x xMax)"

definition avl_getTreeSnapshot :: "AVLTree \<Rightarrow> TreeNodeSnapshot list" where
  "avl_getTreeSnapshot t = avl_inorderSnapshot (avlRoot t) 0 0 800"

fun height :: "AVLNode \<Rightarrow> int" where
  "height ANil = 0"
| "height (ANode i v h l r) = h"

fun getBalance :: "AVLNode \<Rightarrow> int" where
  "getBalance ANil = 0"
| "getBalance (ANode i v h l r) = height l - height r"

definition avl_rightRotate :: "AVLNode \<Rightarrow> AVLTree \<Rightarrow> (AVLNode \<times> AVLTree) option" where
  "avl_rightRotate y t =
     (case y of ANil \<Rightarrow> None
      | ANode yi yv yh x yr \<Rightarrow>
          (case x of ANil \<Rightarrow> None
           | ANode xi xv xh xl T2 \<Rightarrow>
               (let y1 = ANode yi yv (max (height T2) (height yr) + 1) T2 yr;
                    x1 = ANode xi xv (max (height xl) (height y1) + 1) xl y1
                in Some (x1, avl_addStep StepRotateRight [ArgInt yv] (Some yi) [xi, yi] t))))"

definition avl_leftRotate :: "AVLNode \<Rightarrow> AVLTree \<Rightarrow> (AVLNode \<times> AVLTree) option" where
  "avl_leftRotate x t =
     (case x of ANil \<Rightarrow> None
      | ANode xi xv xh xl y \<Rightarrow>
          (case y of ANil \<Rightarrow> None
           | ANode yi yv yh T2 yr \<Rightarrow>
               (let x1 = ANode xi xv (max (height xl) (height T2) + 1) xl T2;
                    y1 = ANode yi yv (max (height x1) (height yr) + 1) x1 yr
                in Some (y1, avl_addStep StepRotateLeft [ArgInt xv] (Some xi) [xi, yi] t))))"

text \<open>
  The part of \<open>insert\<close> after the recursive call: the height update and the four rotation
  cases, tested in the order of the source. A test \<open>balance > 1 && value < node.Left.Value\<close>
  reads the child only when its first half holds.
\<close>

definition avl_insertRebalance :: "AVLNode \<Rightarrow> int \<Rightarrow> AVLTree \<Rightarrow> (AVLNode \<times> AVLTree) option" where
  "avl_insertRebalance node0 value t =
     (case node0 of ANil \<Rightarrow> None
      | ANode i v h l r \<Rightarrow>
          (let node = ANode i v (1 + max (height l) (height r)) l r;
               balance = getBalance node
           in do {
                ll \<leftarrow> (if balance > 1 then map_option (\<lambda>lv. value < lv) (avl_valueOf l)
                       else Some False);
                if ll
                then avl_rightRotate node (avl_addStep StepRebalance [] (Some i) [] t)
                else do {
                  rr \<leftarrow> (if balance < - 1 then map_option (\<lambda>rv. value > rv) (avl_valueOf r)
                         else Some False);
                  if rr
                  then avl_leftRotate node (avl_addStep StepRebalance [] (Some i) [] t)
                  else do {
                    lr \<leftarrow> (if balance > 1 then map_option (\<lambda>lv. value > lv) (avl_valueOf l)
                           else Some False);
                    if lr
                    then do {
                      (l1, t1) \<leftarrow> avl_leftRotate l (avl_addStep StepRebalance [] (Some i) [] t);
                      avl_rightRotate (ANode i v (1 + max (height l) (height r)) l1 r) t1
                    }
                    else do {
                      rl \<leftarrow> (if balance < - 1
                             then map_option (\<lambda>rv. value < rv) (avl_valueOf r)
                             else Some False);
                      if rl
                      then do {
                        (r1, t1) \<leftarrow> avl_rightRotate r
                                      (avl_addStep StepRebalance [] (Some i) [] t);
                        avl_leftRotate (ANode i v (1 + max (height l) (height r)) l r1) t1
                      }
                      else Some (node, t)
                    }
                  }
                }
              }))"

fun avl_insert :: "AVLNode \<Rightarrow> int \<Rightarrow> AVLTree \<Rightarrow> (AVLNode \<times> AVLTree) option" where
  "avl_insert ANil value t =
     (let newNode = ANode (avlNextID t) value 1 ANil ANil;
          t1 = t\<lparr>avlNextID := avlNextID t + 1\<rparr>
      in Some (newNode,
               avl_addStep StepInsert [ArgInt value] (Some (avlNextID t)) [avlNextID t] t1))"
| "avl_insert (ANode i v h l r) value t =
     (let t1 = avl_addStep StepCompare [ArgInt value, ArgInt v] (Some i) [i] t
      in if value < v
         then (case avl_insert l value t1 of None \<Rightarrow> None
               | Some (l1, t2) \<Rightarrow> avl_insertRebalance (ANode i v h l1 r) value t2)
         else if value > v
         then (case avl_insert r value t1 of None \<Rightarrow> None
               | Some (r1, t2) \<Rightarrow> avl_insertRebalance (ANode i v h l r1) value t2)
         else Some (ANode i v h l r, t1))"

definition AVL_Insert :: "int \<Rightarrow> AVLTree \<Rightarrow> (Step OperationResult \<times> AVLTree) option" where
  "AVL_Insert value t =
     (let t1 = avl_addStep StepInsert [ArgInt value] None [] (avl_clearSteps t)
      in case avl_insert (avlRoot t1) value t1 of None \<Rightarrow> None
         | Some (root1, t2) \<Rightarrow>
             (let t3 = avl_addStep StepComplete [] None [] (t2\<lparr>avlRoot := root1\<rparr>)
              in Some (\<lparr>Success = True, Message = None, Steps = avlSteps t3,
                         FinalTree = avl_getTreeSnapshot t3, FinalGraph = None\<rparr>, t3)))"

fun avl_searchLoop :: "AVLNode \<Rightarrow> int \<Rightarrow> AVLTree \<Rightarrow> Step OperationResult \<times> AVLTree" where
  "avl_searchLoop ANil value t =
     (let t1 = avl_addStep StepNotFound [ArgInt value] None [] t
      in (\<lparr>Success = False, Message = Some [ArgInt value], Steps = avlSteps t1,
           FinalTree = avl_getTreeSnapshot t1, FinalGraph = None\<rparr>, t1))"
| "avl_searchLoop (ANode i v h l r) value t =
     (let t1 = avl_addStep StepCompare [ArgInt value, ArgInt v] (Some i) [i] t
      in if value = v
         then (let t2 = avl_addStep StepFound [ArgInt value] (Some i) [i] t1
               in (\<lparr>Success = True, Message = Some [ArgInt value], Steps = avlSteps t2,
                    FinalTree = avl_getTreeSnapshot t2, FinalGraph = None\<rparr>, t2))
         else if value < v then avl_searchLoop l value t1
         else avl_searchLoop r value t1)"

definition AVL_Search :: "int \<Rightarrow> AVLTree \<Rightarrow> Step OperationResult \<times> AVLTree" where
  "AVL_Search value t = avl_searchLoop (avlRoot t) value (avl_clearSteps t)"

fun minValueNode :: "AVLNode \<Rightarrow> AVLNode option" where
  "minValueNode ANil = None"
| "minValueNode (ANode i v h ANil r) = Some (ANode i v h ANil r)"
| "minValueNode (ANode i v h l r) = minValueNode l"

text \<open>The part of \<open>delete\<close> after the three-way branch: height update and rotations.\<close>

definition avl_deleteRebalance :: "AVLNode \<Rightarrow> AVLTree \<Rightarrow> (AVLNode \<times> AVLTree) option" where
  "avl_deleteRebalance node0 t =
     (case node0 of ANil \<Rightarrow> None
      | ANode i v h l r \<Rightarrow>
          (let node = ANode i v (1 + max (height l) (height r)) l r;
               balance = getBalance node
           in if balance > 1 \<and> getBalance l \<ge> 0
              then avl_rightRotate node (avl_addStep StepRebalance [] (Some i) [i] t)
              else if balance > 1 \<and> getBalance l < 0
              then do {
                (l1, t1) \<leftarrow> avl_leftRotate l (avl_addStep StepRebalance [] (Some i) [i] t);
                avl_rightRotate (ANode i v (1 + max (height l) (height r)) l1 r) t1
              }
              else if balance < - 1 \<and> getBalance r \<le> 0
              then avl_leftRotate node (avl_addStep StepRebalance [] (Some i) [i] t)
              else if balance < - 1 \<and> getBalance r > 0
              then do {
                (r1, t1) \<leftarrow> avl_rightRotate r (avl_addStep StepRebalance [] (Some i) [i] t);
                avl_leftRotate (ANode i v (1 + max (height l) (height r)) l r1) t1
              }
              else Some (node, t)))"

text \<open>
  A step holds \<open>NodeID\<close> as a pointer to the id field of a node (\<open>&node.ID\<close>), read when the
  result is written out. \<open>delete\<close> overwrites the id of a node with two children by the id
  of its successor, so the two steps emitted for this node before (the Compare step at
  position \<open>k\<close> and the Delete step after it) show the new id. Every other node keeps its
  id for its lifetime.
\<close>

definition avl_repoint :: "nat \<Rightarrow> int \<Rightarrow> Step list \<Rightarrow> Step list" where
  "avl_repoint k newID ss =
     map (\<lambda>(j, s). if j = k \<or> j = k + 1 then s\<lparr>NodeID := Some newID\<rparr> else s)
       (zip [0 ..< length ss] ss)"

fun avl_delete :: "AVLNode \<Rightarrow> int \<Rightarrow> AVLTree \<Rightarrow> (AVLNode \<times> AVLTree) option" where
  "avl_delete ANil value t = Some (ANil, avl_addStep StepNotFound [ArgInt value] None [] t)"
| "avl_delete (ANode i v h l r) value t =
     (let t1 = avl_addStep StepCompare [ArgInt value, ArgInt v] (Some i) [i] t
      in if value < v
         then (case avl_delete l value t1 of None \<Rightarrow> None
               | Some (l1, t2) \<Rightarrow> avl_deleteRebalance (ANode i v h l1 r) t2)
         else if value > v
         then (case avl_delete r value t1 of None \<Rightarrow> None
               | Some (r1, t2) \<Rightarrow> avl_deleteRebalance (ANode i v h l r1) t2)
         else
           (let t2 = avl_addStep StepDelete [ArgInt value] (Some i) [i] t1
            in if l = ANil
               then Some (r, avl_addStep StepDelete [ArgInt v] (Some i) [] t2)
               else if r = ANil
               then Some (l, avl_addStep StepDelete [ArgInt v] (Some i) [] t2)
               else
                 (case minValueNode r of None \<Rightarrow> None
                  | Some successor \<Rightarrow>
                      (let t3 = avl_addStep StepDelete [ArgInt v, ArgInt (aValue successor)]
                                  (Some (aID successor)) [i, aID successor] t2;
                           t3 = t3\<lparr>avlSteps := avl_repoint (length (avlSteps t))
                                                    (aID successor) (avlSteps t3)\<rparr>;
                           t4 = avl_addStep StepDelete [ArgInt (aValue successor)]
                                  (Some (aID successor)) [] t3
                       in case avl_delete r (aValue successor) t4 of None \<Rightarrow> None
                          | Some (r1, t5) \<Rightarrow>
                              avl_deleteRebalance
                                (ANode (aID successor) (aValue successor) h l r1) t5))))"

fun avl_found :: "AVLNode \<Rightarrow> int \<Rightarrow> bool" where
  "avl_found ANil value = False"
| "avl_found (ANode i v h l r) value =
     (if value = v then True
      else if value < v then avl_found l value
      else avl_found r value)"

definition AVL_Delete :: "int \<Rightarrow> AVLTree \<Rightarrow> (Step OperationResult \<times> AVLTree) option" where
  "AVL_Delete value t =
     (let t1 = avl_addStep StepDelete [ArgInt value] None [] (avl_clearSteps t)
      in if \<not> avl_found (avlRoot t1) value
         then (let t2 = avl_addStep StepNotFound [ArgInt value] None [] t1
               in Some (\<lparr>Success = False, Message = Some [ArgInt value], Steps = avlSteps t2,
                          FinalTree = avl_getTreeSnapshot t2, FinalGraph = None\<rparr>, t2))
         else (case avl_delete (avlRoot t1) value t1 of None \<Rightarrow> None
               | Some (root1, t2) \<Rightarrow>
                   (let t3 = avl_addStep StepComplete [ArgInt value] None []
                               (t2\<lparr>avlRoot := root1\<rparr>)
                    in Some (\<lparr>Success = True, Message = Some [ArgInt value],
                               Steps = avlSteps t3, FinalTree = avl_getTreeSnapshot t3,
                               FinalGraph = None\<rparr>, t3))))"

text \<open>A sequence of calls of \<open>Insert\<close>, each on the tree the one before left.\<close>

fun avl_insertAll :: "int list \<Rightarrow> AVLTree \<Rightarrow> AVLTree option" where
  "avl_insertAll [] t = Some t"
| "avl_insertAll (k # ks) t =
     (case AVL_Insert k t of None \<Rightarrow> None | Some (res, t1) \<Rightarrow> avl_insertAll ks t1)"

text \<open>
  The invariant of the AVL tree, on the stored heights that the code reads: every node
  stores one more than the larger height of its children, an absent child counting 0, and
  the heights of its children differ by at most one.
\<close>

fun avlInv :: "AVLNode \<Rightarrow> bool" where
  "avlInv ANil = True"
| "avlInv (ANode i v h l r) =
     (h = 1 + max (height l) (height r)
      \<and> - 1 \<le> height l - height r \<and> height l - height r \<le> 1
      \<and> avlInv l \<and> avlInv r)"

text \<open>How an insertion may change the height of a subtree.\<close>

definition grown :: "int \<Rightarrow> AVLNode \<Rightarrow> AVLNode \<Rightarrow> bool" where
  "grown v n n1 =
     (height n1 = height n
      \<or> (height n1 = height n + 1
          \<and> (n = ANil
              \<or> (case n1 of ANil \<Rightarrow> False
                  | ANode i k h l r \<Rightarrow>
                      (v < k \<and> height r < height l) \<or> (k < v \<and> height l < height r)))))"

section \<open>Traced red-black tree (datastructures/rbtree.go)\<close>

text \<open>
  The nodes of the red-black tree are linked in both directions and share the sentinel
  \<open>NIL\<close>, so they live in an explicit store: \<open>cells\<close> maps an address to the node stored
  there, \<open>fresh\<close> is the next address an allocation returns. A pointer is \<open>Null\<close> (Go's
  nil) or the address of a node; reading or writing through \<open>Null\<close> is the result \<open>None\<close>,
  and so is a loop that does not end.
\<close>

datatype ref = Null | Ref nat

record RBNode =
  ID :: int
  Value :: int
  Color :: NodeColor
  Left :: ref
  Right :: ref
  Parent :: ref

record RedBlackTree =
  Root :: ref
  NIL :: ref
  nextID :: int
  rbSteps :: "RBStep list"
  cells :: "nat \<Rightarrow> RBNode"
  fresh :: nat

definition NewRedBlackTree :: RedBlackTree where
  "NewRedBlackTree =
     \<lparr>Root = Ref 0, NIL = Ref 0, nextID = 0, rbSteps = [],
      cells = (\<lambda>a. \<lparr>ID = - 1, Value = 0, Color = Black,
                      Left = Null, Right = Null, Parent = Null\<rparr>),
      fresh = 1\<rparr>"

fun deref :: "RedBlackTree \<Rightarrow> ref \<Rightarrow> RBNode option" where
  "deref t Null = None"
| "deref t (Ref a) = Some (cells t a)"

definition getID :: "RedBlackTree \<Rightarrow> ref \<Rightarrow> int option" where
  "getID t x = map_option ID (deref t x)"

definition getValue :: "RedBlackTree \<Rightarrow> ref \<Rightarrow> int option" where
  "getValue t x = map_option Value (deref t x)"

definition getColor :: "RedBlackTree \<Rightarrow> ref \<Rightarrow> NodeColor option" where
  "getColor t x = map_option Color (deref t x)"

definition getLeft :: "RedBlackTree \<Rightarrow> ref \<Rightarrow> ref option" where
  "getLeft t x = map_option Left (deref t x)"

definition getRight :: "RedBlackTree \<Rightarrow> ref \<Rightarrow> ref option" where
  "getRight t x = map_option Right (deref t x)"

definition getParent :: "RedBlackTree \<Rightarrow> ref \<Rightarrow> ref option" where
  "getParent t x = map_option Parent (deref t x)"

fun setColor :: "ref \<Rightarrow> NodeColor \<Rightarrow> RedBlackTree \<Rightarrow> RedBlackTree option" where
  "setColor Null c t = None"
| "setColor (Ref a) c t = Some (t\<lparr>cells := (cells t)(a := (cells t a)\<lparr>Color := c\<rparr>)\<rparr>)"

fun setLeft :: "ref \<Rightarrow> ref \<Rightarrow> RedBlackTree \<Rightarrow> RedBlackTree option" where
  "setLeft Null v t = None"
| "setLeft (Ref a) v t = Some (t\<lparr>cells := (cells t)(a := (cells t a)\<lparr>Left := v\<rparr>)\<rparr>)"

fun setRight :: "ref \<Rightarrow> ref \<Rightarrow> RedBlackTree \<Rightarrow> RedBlackTree option" where
  "setRight Null v t = None"
| "setRight (Ref a) v t = Some (t\<lparr>cells := (cells t)(a := (cells t a)\<lparr>Right := v\<rparr>)\<rparr>)"

fun setParent :: "ref \<Rightarrow> ref \<Rightarrow> RedBlackTree \<Rightarrow> RedBlackTree option" where
  "setParent Null v t = None"
| "setParent (Ref a) v t = Some (t\<lparr>cells := (cells t)(a := (cells t a)\<lparr>Parent := v\<rparr>)\<rparr>)"

definition rb_clearSteps :: "RedBlackTree \<Rightarrow> RedBlackTree" where
  "rb_clearSteps t = t\<lparr>rbSteps := []\<rparr>"

text \<open>The id of a child or parent for a snapshot: absent for \<open>NIL\<close> and for nil.\<close>

definition linkID :: "RedBlackTree \<Rightarrow> ref \<Rightarrow> int option option" where
  "linkID t p = (if p \<noteq> NIL t \<and> p \<noteq> Null then map_option Some (getID t p) else Some None)"

partial_function (option) rb_inorderSnapshot ::
  "RedBlackTree \<Rightarrow> ref \<Rightarrow> nat \<Rightarrow> real \<Rightarrow> real \<Rightarrow> TreeNodeSnapshot list option" where
  "rb_inorderSnapshot t nd depth xMin xMax =
     (if nd = NIL t \<or> nd = Null then Some []
      else do {
        n \<leftarrow> deref t nd;
        leftID \<leftarrow> linkID t (Left n);
        rightID \<leftarrow> linkID t (Right n);
        parentID \<leftarrow> linkID t (Parent n);
        ls \<leftarrow> rb_inorderSnapshot t (Left n) (depth + 1) xMin ((xMin + xMax) / 2);
        rs \<leftarrow> rb_inorderSnapshot t (Right n) (depth + 1) ((xMin + xMax) / 2) xMax;
        Some (\<lparr>snapID = ID n, snapValue = Value n, snapColor = Some (Color n),
                snapLeftID = leftID, snapRightID = rightID, snapParentID = parentID,
                snapHeight = 0, snapX = (xMin + xMax) / 2,
                snapY = real (depth * 80 + 50)\<rparr> # ls @ rs)
      })"

definition rb_getTreeSnapshot :: "RedBlackTree \<Rightarrow> TreeNodeSnapshot list option" where
  "rb_getTreeSnapshot t = rb_inorderSnapshot t (Root t) 0 0 800"

text \<open>
  \<open>addStep\<close> takes the snapshot of the tree as it is at the call and appends the step that
  carries it. On a store whose links from the root never reach the sentinel the snapshot
  does not return, and neither does \<open>addStep\<close>.
\<close>

definition rbStep ::
  "StepType \<Rightarrow> fmtarg list \<Rightarrow> int option \<Rightarrow> int list \<Rightarrow> TreeNodeSnapshot list \<Rightarrow> RBStep" where
  "rbStep stepType desc nodeID highlights snap =
     \<lparr>Type = stepType, Description = desc, NodeID = nodeID,
      GraphNodes = [], GraphEdges = [], Highlight = highlights, TreeState = snap\<rparr>"

definition pushStep :: "RBStep \<Rightarrow> RedBlackTree \<Rightarrow> RedBlackTree" where
  "pushStep s t = t\<lparr>rbSteps := rbSteps t @ [s]\<rparr>"

definition rb_addStep ::
  "StepType \<Rightarrow> fmtarg list \<Rightarrow> int option \<Rightarrow> int list \<Rightarrow> RedBlackTree
     \<Rightarrow> RedBlackTree option" where
  "rb_addStep stepType desc nodeID highlights t = do {
     snap \<leftarrow> rb_getTreeSnapshot t;
     Some (pushStep (rbStep stepType desc nodeID highlights snap) t)
   }"

definition rb_leftRotate :: "ref \<Rightarrow> RedBlackTree \<Rightarrow> RedBlackTree option" where
  "rb_leftRotate x t = do {
     y \<leftarrow> getRight t x;
     yl \<leftarrow> getLeft t y;
     t \<leftarrow> setRight x yl t;
     yl \<leftarrow> getLeft t y;
     t \<leftarrow> (if yl \<noteq> NIL t then setParent yl x t else Some t);
     xp \<leftarrow> getParent t x;
     t \<leftarrow> setParent y xp t;
     xp \<leftarrow> getParent t x;
     t \<leftarrow> (if xp = NIL t then Some (t\<lparr>Root := y\<rparr>)
           else do {
             xpl \<leftarrow> getLeft t xp;
             if x = xpl then setLeft xp y t else setRight xp y t
           });
     t \<leftarrow> setLeft y x t;
     t \<leftarrow> setParent x y t;
     xv \<leftarrow> getValue t x;
     xid \<leftarrow> getID t x;
     yid \<leftarrow> getID t y;
     rb_addStep StepRotateLeft [ArgInt xv] (Some xid) [xid, yid] t
   }"

definition rb_rightRotate :: "ref \<Rightarrow> RedBlackTree \<Rightarrow> RedBlackTree option" where
  "rb_rightRotate y t = do {
     x \<leftarrow> getLeft t y;
     xr \<leftarrow> getRight t x;
     t \<leftarrow> setLeft y xr t;
     xr \<leftarrow> getRight t x;
     t \<leftarrow> (if xr \<noteq> NIL t then setParent xr y t else Some t);
     yp \<leftarrow> getParent t y;
     t \<leftarrow> setParent x yp t;
     yp \<leftarrow> getParent t y;
     t \<leftarrow> (if yp = NIL t then Some (t\<lparr>Root := x\<rparr>)
           else do {
             ypl \<leftarrow> getLeft t yp;
             if y = ypl then setLeft yp x t else setRight yp x t
           });
     t \<leftarrow> setRight x y t;
     t \<leftarrow> setParent y x t;
     yv \<leftarrow> getValue t y;
     yid \<leftarrow> getID t y;
     xid \<leftarrow> getID t x;
     rb_addStep StepRotateRight [ArgInt yv] (Some yid) [xid, yid] t
   }"

subsection \<open>Insert\<close>

text \<open>The allocation \<open>z := &RBNode{...}\<close> with \<open>t.nextID++\<close>.\<close>

definition rb_newNode :: "int \<Rightarrow> RedBlackTree \<Rightarrow> ref \<times> RedBlackTree" where
  "rb_newNode value t =
     (Ref (fresh t),
      t\<lparr>cells := (cells t)(fresh t := \<lparr>ID = nextID t, Value = value, Color = Red,
                                       Left = NIL t, Right = NIL t, Parent = NIL t\<rparr>),
        fresh := fresh t + 1,
        nextID := nextID t + 1\<rparr>)"

text \<open>The descent \<open>for x != t.NIL\<close>; it returns the last node visited, \<open>y\<close>.\<close>

partial_function (option) rb_insertDescend ::
  "int \<Rightarrow> ref \<Rightarrow> ref \<Rightarrow> ref \<Rightarrow> RedBlackTree \<Rightarrow> (ref \<times> RedBlackTree) option" where
  "rb_insertDescend value z y x t =
     (if x \<noteq> NIL t
      then do {
        xv \<leftarrow> getValue t x;
        xid \<leftarrow> getID t x;
        t \<leftarrow> rb_addStep StepCompare [ArgInt value, ArgInt xv] (Some xid) [xid] t;
        zv \<leftarrow> getValue t z;
        xv \<leftarrow> getValue t x;
        x1 \<leftarrow> (if zv < xv then getLeft t x else getRight t x);
        rb_insertDescend value z x x1 t
      }
      else Some (y, t))"

text \<open>Linking the new node below \<open>y\<close>.\<close>

definition rb_insertLink :: "int \<Rightarrow> ref \<Rightarrow> ref \<Rightarrow> RedBlackTree \<Rightarrow> RedBlackTree option" where
  "rb_insertLink value z y t = do {
     t \<leftarrow> setParent z y t;
     zid \<leftarrow> getID t z;
     if y = NIL t
     then rb_addStep StepInsert [ArgInt value] (Some zid) [] (t\<lparr>Root := z\<rparr>)
     else do {
       zv \<leftarrow> getValue t z;
       yv \<leftarrow> getValue t y;
       yid \<leftarrow> getID t y;
       if zv < yv
       then do {
         t \<leftarrow> setLeft y z t;
         rb_addStep StepInsert [ArgInt value, ArgInt yv] (Some zid) [yid, zid] t
       }
       else do {
         t \<leftarrow> setRight y z t;
         rb_addStep StepInsert [ArgInt value, ArgInt yv] (Some zid) [yid, zid] t
       }
     }
   }"

text \<open>The test \<open>y != t.NIL && y.Color == Red\<close>.\<close>

definition isRed :: "RedBlackTree \<Rightarrow> ref \<Rightarrow> bool option" where
  "isRed t y = (if y \<noteq> NIL t then map_option (\<lambda>c. c = Red) (getColor t y) else Some False)"

text \<open>
  Case 1 and its mirror, which differ in the side of the uncle, passed as \<open>y\<close>: both
  recolor parent, uncle and grandparent and continue from the grandparent.
\<close>

definition rb_insertCase1 :: "ref \<Rightarrow> ref \<Rightarrow> RedBlackTree \<Rightarrow> (ref \<times> RedBlackTree) option" where
  "rb_insertCase1 z y t = do {
     zid \<leftarrow> getID t z;
     zp \<leftarrow> getParent t z;
     zpid \<leftarrow> getID t zp;
     yid \<leftarrow> getID t y;
     t \<leftarrow> rb_addStep StepRebalance [] (Some zid) [zid, zpid, yid] t;
     zp \<leftarrow> getParent t z;
     t \<leftarrow> setColor zp Black t;
     t \<leftarrow> setColor y Black t;
     zp \<leftarrow> getParent t z;
     zpp \<leftarrow> getParent t zp;
     t \<leftarrow> setColor zpp Red t;
     zp \<leftarrow> getParent t z;
     zpv \<leftarrow> getValue t zp;
     yv \<leftarrow> getValue t y;
     zpp \<leftarrow> getParent t zp;
     zppv \<leftarrow> getValue t zpp;
     zppid \<leftarrow> getID t zpp;
     t \<leftarrow> rb_addStep StepColorChange [ArgInt zpv, ArgInt yv, ArgInt zppv]
                   (Some zppid) [] t;
     zp \<leftarrow> getParent t z;
     zpp \<leftarrow> getParent t zp;
     Some (zpp, t)
   }"

text \<open>
  The recoloring of Case 3 and its mirror, up to the Color-Change step; the rotation at
  the grandparent follows it in \<open>rb_insertFixupBody\<close>.
\<close>

definition rb_insertCase3Recolor :: "ref \<Rightarrow> RedBlackTree \<Rightarrow> RedBlackTree option" where
  "rb_insertCase3Recolor z t = do {
     zid \<leftarrow> getID t z;
     t \<leftarrow> rb_addStep StepRebalance [] (Some zid) [] t;
     zp \<leftarrow> getParent t z;
     t \<leftarrow> setColor zp Black t;
     zp \<leftarrow> getParent t z;
     zpp \<leftarrow> getParent t zp;
     t \<leftarrow> setColor zpp Red t;
     zp \<leftarrow> getParent t z;
     zpv \<leftarrow> getValue t zp;
     zpp \<leftarrow> getParent t zp;
     zppv \<leftarrow> getValue t zpp;
     zpid \<leftarrow> getID t zp;
     rb_addStep StepColorChange [ArgInt zpv, ArgInt zppv] (Some zpid) [] t
   }"

text \<open>One iteration of the loop of \<open>insertFixup\<close>; it returns the new \<open>z\<close>.\<close>

definition rb_insertFixupBody :: "ref \<Rightarrow> RedBlackTree \<Rightarrow> (ref \<times> RedBlackTree) option" where
  "rb_insertFixupBody z t = do {
     zp \<leftarrow> getParent t z;
     zpp \<leftarrow> getParent t zp;
     zppl \<leftarrow> getLeft t zpp;
     if zp = zppl
     then do {
       y \<leftarrow> getRight t zpp;
       yred \<leftarrow> isRed t y;
       if yred then rb_insertCase1 z y t
       else do {
         zp \<leftarrow> getParent t z;
         zpr \<leftarrow> getRight t zp;
         (z, t) \<leftarrow> (if z = zpr
                    then do {
                      z \<leftarrow> getParent t z;
                      zid \<leftarrow> getID t z;
                      t \<leftarrow> rb_addStep StepRebalance [] (Some zid) [] t;
                      t \<leftarrow> rb_leftRotate z t;
                      Some (z, t)
                    }
                    else Some (z, t));
         t \<leftarrow> rb_insertCase3Recolor z t;
         zp \<leftarrow> getParent t z;
         zpp \<leftarrow> getParent t zp;
         t \<leftarrow> rb_rightRotate zpp t;
         Some (z, t)
       }
     }
     else do {
       y \<leftarrow> getLeft t zpp;
       yred \<leftarrow> isRed t y;
       if yred then rb_insertCase1 z y t
       else do {
         zp \<leftarrow> getParent t z;
         zpl \<leftarrow> getLeft t zp;
         (z, t) \<leftarrow> (if z = zpl
                    then do {
                      z \<leftarrow> getParent t z;
                      zid \<leftarrow> getID t z;
                      t \<leftarrow> rb_addStep StepRebalance [] (Some zid) [] t;
                      t \<leftarrow> rb_rightRotate z t;
                      Some (z, t)
                    }
                    else Some (z, t));
         t \<leftarrow> rb_insertCase3Recolor z t;
         zp \<leftarrow> getParent t z;
         zpp \<leftarrow> getParent t zp;
         t \<leftarrow> rb_leftRotate zpp t;
         Some (z, t)
       }
     }
   }"

partial_function (option) rb_insertFixupLoop :: "ref \<Rightarrow> RedBlackTree \<Rightarrow> RedBlackTree option" where
  "rb_insertFixupLoop z t = do {
     zp \<leftarrow> getParent t z;
     red \<leftarrow> isRed t zp;
     if red
     then do {
       zt \<leftarrow> rb_insertFixupBody z t;
       rb_insertFixupLoop (fst zt) (snd zt)
     }
     else Some t
   }"

definition rb_insertFixup :: "ref \<Rightarrow> RedBlackTree \<Rightarrow> RedBlackTree option" where
  "rb_insertFixup z t = do {
     t \<leftarrow> rb_insertFixupLoop z t;
     c \<leftarrow> getColor t (Root t);
     if c = Red
     then do {
       t \<leftarrow> setColor (Root t) Black t;
       rid \<leftarrow> getID t (Root t);
       rb_addStep StepColorChange [] (Some rid) [] t
     }
     else Some t
   }"

text \<open>\<open>Insert\<close> up to the call of \<open>insertFixup\<close>: allocation, descent and linking.\<close>

definition rb_insertNode :: "int \<Rightarrow> RedBlackTree \<Rightarrow> (ref \<times> RedBlackTree) option" where
  "rb_insertNode value t = do {
     (z, t) \<leftarrow> Some (rb_newNode value (rb_clearSteps t));
     zid \<leftarrow> getID t z;
     t \<leftarrow> rb_addStep StepInsert [ArgInt value] (Some zid) [] t;
     (y, t) \<leftarrow> rb_insertDescend value z (NIL t) (Root t) t;
     t \<leftarrow> rb_insertLink value z y t;
     Some (z, t)
   }"

definition RB_Insert :: "int \<Rightarrow> RedBlackTree \<Rightarrow> (RBStep OperationResult \<times> RedBlackTree) option" where
  "RB_Insert value t = do {
     (z, t) \<leftarrow> rb_insertNode value t;
     t \<leftarrow> rb_insertFixup z t;
     t \<leftarrow> rb_addStep StepComplete [] None [] t;
     snap \<leftarrow> rb_getTreeSnapshot t;
     Some (\<lparr>Success = True, Message = None, Steps = rbSteps t,
            FinalTree = snap, FinalGraph = None\<rparr>, t)
   }"

subsection \<open>Search\<close>

partial_function (option) rb_searchLoop ::
  "int \<Rightarrow> ref \<Rightarrow> RedBlackTree \<Rightarrow> (RBStep OperationResult \<times> RedBlackTree) option" where
  "rb_searchLoop value x t =
     (if x \<noteq> NIL t
      then do {
        xv \<leftarrow> getValue t x;
        xid \<leftarrow> getID t x;
        t \<leftarrow> rb_addStep StepCompare [ArgInt value, ArgInt xv] (Some xid) [xid] t;
        xv \<leftarrow> getValue t x;
        if value = xv
        then do {
          xid \<leftarrow> getID t x;
          t \<leftarrow> rb_addStep StepFound [ArgInt value] (Some xid) [xid] t;
          snap \<leftarrow> rb_getTreeSnapshot t;
          Some (\<lparr>Success = True, Message = Some [ArgInt value], Steps = rbSteps t,
                 FinalTree = snap, FinalGraph = None\<rparr>, t)
        }
        else do {
          x1 \<leftarrow> (if value < xv then getLeft t x else getRight t x);
          rb_searchLoop value x1 t
        }
      }
      else do {
        t \<leftarrow> rb_addStep StepNotFound [ArgInt value] None [] t;
        snap \<leftarrow> rb_getTreeSnapshot t;
        Some (\<lparr>Success = False, Message = Some [ArgInt value], Steps = rbSteps t,
               FinalTree = snap, FinalGraph = None\<rparr>, t)
      })"

definition RB_Search :: "int \<Rightarrow> RedBlackTree \<Rightarrow> (RBStep OperationResult \<times> RedBlackTree) option" where
  "RB_Search value t = rb_searchLoop value (Root t) (rb_clearSteps t)"

subsection \<open>Delete\<close>

definition rb_transplant :: "ref \<Rightarrow> ref \<Rightarrow> RedBlackTree \<Rightarrow> RedBlackTree option" where
  "rb_transplant u v t = do {
     up \<leftarrow> getParent t u;
     t \<leftarrow> (if up = NIL t then Some (t\<lparr>Root := v\<rparr>)
           else do {
             upl \<leftarrow> getLeft t up;
             if u = upl then setLeft up v t else setRight up v t
           });
     up \<leftarrow> getParent t u;
     setParent v up t
   }"

partial_function (option) rb_minimum :: "ref \<Rightarrow> RedBlackTree \<Rightarrow> ref option" where
  "rb_minimum nd t = do {
     l \<leftarrow> getLeft t nd;
     if l \<noteq> NIL t then rb_minimum l t else Some nd
   }"

partial_function (option) rb_searchNode :: "int \<Rightarrow> ref \<Rightarrow> RedBlackTree \<Rightarrow> ref option" where
  "rb_searchNode value x t =
     (if x \<noteq> NIL t
      then do {
        xv \<leftarrow> getValue t x;
        if value = xv then Some x
        else if value < xv
        then do { l \<leftarrow> getLeft t x; rb_searchNode value l t }
        else do { r \<leftarrow> getRight t x; rb_searchNode value r t }
      }
      else Some (NIL t))"

text \<open>
  One iteration of the loop of \<open>deleteFixup\<close>; it returns the new \<open>x\<close>. A test
  \<open>w.Left.Color == Black && w.Right.Color == Black\<close> reads the second color only when the
  first is black.
\<close>

definition rb_deleteFixupBody :: "ref \<Rightarrow> RedBlackTree \<Rightarrow> (ref \<times> RedBlackTree) option" where
  "rb_deleteFixupBody x t = do {
     xp \<leftarrow> getParent t x;
     xpl \<leftarrow> getLeft t xp;
     if x = xpl
     then do {
       w \<leftarrow> getRight t xp;
       wc \<leftarrow> getColor t w;
       (w, t) \<leftarrow> (if wc = Red
                  then do {
                    wid \<leftarrow> getID t w;
                    xid \<leftarrow> getID t x;
                    t \<leftarrow> rb_addStep StepRebalance [] (Some wid) [xid, wid] t;
                    t \<leftarrow> setColor w Black t;
                    xp \<leftarrow> getParent t x;
                    t \<leftarrow> setColor xp Red t;
                    wv \<leftarrow> getValue t w;
                    xp \<leftarrow> getParent t x;
                    xpv \<leftarrow> getValue t xp;
                    xpid \<leftarrow> getID t xp;
                    t \<leftarrow> rb_addStep StepColorChange [ArgInt wv, ArgInt xpv]
                                  (Some xpid) [] t;
                    xp \<leftarrow> getParent t x;
                    t \<leftarrow> rb_leftRotate xp t;
                    xp \<leftarrow> getParent t x;
                    w \<leftarrow> getRight t xp;
                    Some (w, t)
                  }
                  else Some (w, t));
       wl \<leftarrow> getLeft t w;
       wlc \<leftarrow> getColor t wl;
       both \<leftarrow> (if wlc = Black
                then do { wr \<leftarrow> getRight t w; wrc \<leftarrow> getColor t wr; Some (wrc = Black) }
                else Some False);
       if both
       then do {
         wid \<leftarrow> getID t w;
         t \<leftarrow> rb_addStep StepRebalance [] (Some wid) [wid] t;
         t \<leftarrow> setColor w Red t;
         wv \<leftarrow> getValue t w;
         wid \<leftarrow> getID t w;
         t \<leftarrow> rb_addStep StepColorChange [ArgInt wv] (Some wid) [] t;
         xp \<leftarrow> getParent t x;
         Some (xp, t)
       }
       else do {
         wr \<leftarrow> getRight t w;
         wrc \<leftarrow> getColor t wr;
         (w, t) \<leftarrow> (if wrc = Black
                    then do {
                      wid \<leftarrow> getID t w;
                      t \<leftarrow> rb_addStep StepRebalance [] (Some wid) [] t;
                      wl \<leftarrow> getLeft t w;
                      t \<leftarrow> setColor wl Black t;
                      t \<leftarrow> setColor w Red t;
                      wv \<leftarrow> getValue t w;
                      wid \<leftarrow> getID t w;
                      t \<leftarrow> rb_addStep StepColorChange [ArgInt wv] (Some wid) [] t;
                      t \<leftarrow> rb_rightRotate w t;
                      xp \<leftarrow> getParent t x;
                      w \<leftarrow> getRight t xp;
                      Some (w, t)
                    }
                    else Some (w, t));
         wid \<leftarrow> getID t w;
         t \<leftarrow> rb_addStep StepRebalance [] (Some wid) [] t;
         xp \<leftarrow> getParent t x;
         xpc \<leftarrow> getColor t xp;
         t \<leftarrow> setColor w xpc t;
         xp \<leftarrow> getParent t x;
         t \<leftarrow> setColor xp Black t;
         wr \<leftarrow> getRight t w;
         t \<leftarrow> setColor wr Black t;
         wid \<leftarrow> getID t w;
         t \<leftarrow> rb_addStep StepColorChange [] (Some wid) [] t;
         xp \<leftarrow> getParent t x;
         t \<leftarrow> rb_leftRotate xp t;
         Some (Root t, t)
       }
     }
     else do {
       w \<leftarrow> getLeft t xp;
       wc \<leftarrow> getColor t w;
       (w, t) \<leftarrow> (if wc = Red
                  then do {
                    wid \<leftarrow> getID t w;
                    xid \<leftarrow> getID t x;
                    t \<leftarrow> rb_addStep StepRebalance [] (Some wid) [xid, wid] t;
                    t \<leftarrow> setColor w Black t;
                    xp \<leftarrow> getParent t x;
                    t \<leftarrow> setColor xp Red t;
                    wv \<leftarrow> getValue t w;
                    xp \<leftarrow> getParent t x;
                    xpv \<leftarrow> getValue t xp;
                    xpid \<leftarrow> getID t xp;
                    t \<leftarrow> rb_addStep StepColorChange [ArgInt wv, ArgInt xpv]
                                  (Some xpid) [] t;
                    xp \<leftarrow> getParent t x;
                    t \<leftarrow> rb_rightRotate xp t;
                    xp \<leftarrow> getParent t x;
                    w \<leftarrow> getLeft t xp;
                    Some (w, t)
                  }
                  else Some (w, t));
       wr \<leftarrow> getRight t w;
       wrc \<leftarrow> getColor t wr;
       both \<leftarrow> (if wrc = Black
                then do { wl \<leftarrow> getLeft t w; wlc \<leftarrow> getColor t wl; Some (wlc = Black) }
                else Some False);
       if both
       then do {
         wid \<leftarrow> getID t w;
         t \<leftarrow> rb_addStep StepRebalance [] (Some wid) [wid] t;
         t \<leftarrow> setColor w Red t;
         wv \<leftarrow> getValue t w;
         wid \<leftarrow> getID t w;
         t \<leftarrow> rb_addStep StepColorChange [ArgInt wv] (Some wid) [] t;
         xp \<leftarrow> getParent t x;
         Some (xp, t)
       }
       else do {
         wl \<leftarrow> getLeft t w;
         wlc \<leftarrow> getColor t wl;
         (w, t) \<leftarrow> (if wlc = Black
                    then do {
                      wid \<leftarrow> getID t w;
                      t \<leftarrow> rb_addStep StepRebalance [] (Some wid) [] t;
                      wr \<leftarrow> getRight t w;
                      t \<leftarrow> setColor wr Black t;
                      t \<leftarrow> setColor w Red t;
                      wv \<leftarrow> getValue t w;
                      wid \<leftarrow> getID t w;
                      t \<leftarrow> rb_addStep StepColorChange [ArgInt wv] (Some wid) [] t;
                      t \<leftarrow> rb_leftRotate w t;
                      xp \<leftarrow> getParent t x;
                      w \<leftarrow> getLeft t xp;
                      Some (w, t)
                    }
                    else Some (w, t));
         wid \<leftarrow> getID t w;
         t \<leftarrow> rb_addStep StepRebalance [] (Some wid) [] t;
         xp \<leftarrow> getParent t x;
         xpc \<leftarrow> getColor t xp;
         t \<leftarrow> setColor w xpc t;
         xp \<leftarrow> getParent t x;
         t \<leftarrow> setColor xp Black t;
         wl \<leftarrow> getLeft t w;
         t \<leftarrow> setColor wl Black t;
         wid \<leftarrow> getID t w;
         t \<leftarrow> rb_addStep StepColorChange [] (Some wid) [] t;
         xp \<leftarrow> getParent t x;
         t \<leftarrow> rb_rightRotate xp t;
         Some (Root t, t)
       }
     }
   }"

partial_function (option) rb_deleteFixupLoop ::
  "ref \<Rightarrow> RedBlackTree \<Rightarrow> (ref \<times> RedBlackTree) option" where
  "rb_deleteFixupLoop x t = do {
     continue \<leftarrow> (if x \<noteq> Root t then map_option (\<lambda>c. c = Black) (getColor t x)
                  else Some False);
     if continue
     then do {
       xt \<leftarrow> rb_deleteFixupBody x t;
       rb_deleteFixupLoop (fst xt) (snd xt)
     }
     else Some (x, t)
   }"

definition rb_deleteFixup :: "ref \<Rightarrow> RedBlackTree \<Rightarrow> RedBlackTree option" where
  "rb_deleteFixup x t = do {
     (x, t) \<leftarrow> rb_deleteFixupLoop x t;
     c \<leftarrow> getColor t x;
     if c = Red
     then do {
       t \<leftarrow> setColor x Black t;
       xid \<leftarrow> getID t x;
       rb_addStep StepColorChange [] (Some xid) [] t
     }
     else Some t
   }"

text \<open>
  The three cases of \<open>Delete\<close> once the node \<open>z\<close> is found; the result is \<open>x\<close>, the
  original color of the node taken out of its place, and the new state.
\<close>

definition rb_deleteUnlink ::
  "ref \<Rightarrow> RedBlackTree \<Rightarrow> (ref \<times> NodeColor \<times> RedBlackTree) option" where
  "rb_deleteUnlink z t = do {
     yOriginalColor \<leftarrow> getColor t z;
     zl \<leftarrow> getLeft t z;
     if zl = NIL t
     then do {
       zv \<leftarrow> getValue t z;
       zid \<leftarrow> getID t z;
       t \<leftarrow> rb_addStep StepDelete [ArgInt zv] (Some zid) [] t;
       x \<leftarrow> getRight t z;
       zr \<leftarrow> getRight t z;
       t \<leftarrow> rb_transplant z zr t;
       Some (x, yOriginalColor, t)
     }
     else do {
       zr \<leftarrow> getRight t z;
       if zr = NIL t
       then do {
         zv \<leftarrow> getValue t z;
         zid \<leftarrow> getID t z;
         t \<leftarrow> rb_addStep StepDelete [ArgInt zv] (Some zid) [] t;
         x \<leftarrow> getLeft t z;
         zl \<leftarrow> getLeft t z;
         t \<leftarrow> rb_transplant z zl t;
         Some (x, yOriginalColor, t)
       }
       else do {
         zr \<leftarrow> getRight t z;
         y \<leftarrow> rb_minimum zr t;
         yOriginalColor \<leftarrow> getColor t y;
         x \<leftarrow> getRight t y;
         zv \<leftarrow> getValue t z;
         yv \<leftarrow> getValue t y;
         yid \<leftarrow> getID t y;
         zid \<leftarrow> getID t z;
         t \<leftarrow> rb_addStep StepDelete [ArgInt zv, ArgInt yv] (Some yid) [zid, yid] t;
         yp \<leftarrow> getParent t y;
         t \<leftarrow> (if yp = z then setParent x y t
               else do {
                 yr \<leftarrow> getRight t y;
                 t \<leftarrow> rb_transplant y yr t;
                 zr \<leftarrow> getRight t z;
                 t \<leftarrow> setRight y zr t;
                 yr \<leftarrow> getRight t y;
                 setParent yr y t
               });
         t \<leftarrow> rb_transplant z y t;
         zl \<leftarrow> getLeft t z;
         t \<leftarrow> setLeft y zl t;
         yl \<leftarrow> getLeft t y;
         t \<leftarrow> setParent yl y t;
         zc \<leftarrow> getColor t z;
         t \<leftarrow> setColor y zc t;
         yv \<leftarrow> getValue t y;
         yid \<leftarrow> getID t y;
         t \<leftarrow> rb_addStep StepDelete [ArgInt yv] (Some yid) [] t;
         Some (x, yOriginalColor, t)
       }
     }
   }"

definition RB_Delete :: "int \<Rightarrow> RedBlackTree \<Rightarrow> (RBStep OperationResult \<times> RedBlackTree) option" where
  "RB_Delete value t = do {
     t \<leftarrow> Some (rb_clearSteps t);
     z \<leftarrow> rb_searchNode value (Root t) t;
     if z = NIL t
     then do {
       t \<leftarrow> rb_addStep StepNotFound [ArgInt value] None [] t;
       snap \<leftarrow> rb_getTreeSnapshot t;
       Some (\<lparr>Success = False, Message = Some [ArgInt value], Steps = rbSteps t,
              FinalTree = snap, FinalGraph = None\<rparr>, t)
     }
     else do {
       zid \<leftarrow> getID t z;
       t \<leftarrow> rb_addStep StepDelete [ArgInt value] (Some zid) [zid] t;
       (x, yOriginalColor, t) \<leftarrow> rb_deleteUnlink z t;
       t \<leftarrow> (if yOriginalColor = Black
             then do { t \<leftarrow> rb_addStep StepRebalance [] None [] t; rb_deleteFixup x t }
             else Some t);
       t \<leftarrow> rb_addStep StepComplete [ArgInt value] None [] t;
       snap \<leftarrow> rb_getTreeSnapshot t;
       Some (\<lparr>Success = True, Message = Some [ArgInt value], Steps = rbSteps t,
              FinalTree = snap, FinalGraph = None\<rparr>, t)
     }
   }"

declare rb_inorderSnapshot.simps [code] rb_insertDescend.simps [code]
  rb_insertFixupLoop.simps [code] rb_searchLoop.simps [code] rb_minimum.simps [code]
  rb_searchNode.simps [code] rb_deleteFixupLoop.simps [code]

text \<open>A sequence of calls of \<open>Insert\<close>, each on the tree the one before left.\<close>

fun rb_insertAll :: "int list \<Rightarrow> RedBlackTree \<Rightarrow> RedBlackTree option" where
  "rb_insertAll [] t = Some t"
| "rb_insertAll (k # ks) t =
     (case RB_Insert k t of None \<Rightarrow> None | Some (res, t1) \<Rightarrow> rb_insertAll ks t1)"

text \<open>
  What the loop body reads to choose its case: whether the parent of \<open>z\<close> is the left
  child of the grandparent, the uncle of \<open>z\<close>, and whether \<open>z\<close> is an inner child (the
  right child of a left parent or the left child of a right parent).
\<close>

definition rb_parentIsLeft :: "RedBlackTree \<Rightarrow> ref \<Rightarrow> bool option" where
  "rb_parentIsLeft t z = do {
     zp \<leftarrow> getParent t z;
     zpp \<leftarrow> getParent t zp;
     zppl \<leftarrow> getLeft t zpp;
     Some (zp = zppl)
   }"

definition rb_uncle :: "RedBlackTree \<Rightarrow> ref \<Rightarrow> ref option" where
  "rb_uncle t z = do {
     zp \<leftarrow> getParent t z;
     zpp \<leftarrow> getParent t zp;
     zppl \<leftarrow> getLeft t zpp;
     if zp = zppl then getRight t zpp else getLeft t zpp
   }"

definition rb_isInner :: "RedBlackTree \<Rightarrow> ref \<Rightarrow> bool option" where
  "rb_isInner t z = do {
     left \<leftarrow> rb_parentIsLeft t z;
     zp \<leftarrow> getParent t z;
     c \<leftarrow> (if left then getRight t zp else getLeft t zp);
     Some (z = c)
   }"

text \<open>
  The state in which \<open>Insert(10)\<close> calls \<open>insertFixup\<close> on a tree built by inserting 30
  and 20: the new node is the left child of the red node 20, itself the left child of the
  root, and the uncle is the sentinel.
\<close>

definition case3State :: "(ref \<times> RedBlackTree) option" where
  "case3State = do { t0 \<leftarrow> rb_insertAll [30, 20] NewRedBlackTree; rb_insertNode 10 t0 }"

section \<open>The tree a red-black store represents\<close>

text \<open>
  The shape of a tree in the store, by the addresses of its nodes. \<open>tree_at h nl par p s\<close>
  says that in the store \<open>h\<close> with the sentinel at address \<open>nl\<close>, the pointer \<open>p\<close> leads to
  a tree of shape \<open>s\<close> whose root, if there is one, has the parent pointer \<open>par\<close>: an empty
  position is a pointer to the sentinel, a node is the cell at its address, with the left
  and right fields leading to the subtrees and every child pointing back to its parent.
\<close>

datatype shape = Lf | Nd shape nat shape

fun addrs :: "shape \<Rightarrow> nat list" where
  "addrs Lf = []"
| "addrs (Nd l a r) = addrs l @ a # addrs r"

fun tree_at :: "(nat \<Rightarrow> RBNode) \<Rightarrow> nat \<Rightarrow> ref \<Rightarrow> ref \<Rightarrow> shape \<Rightarrow> bool" where
  "tree_at h nl par p Lf = (p = Ref nl)"
| "tree_at h nl par p (Nd l a r) =
     (p = Ref a \<and> a \<noteq> nl \<and> Parent (h a) = par
      \<and> tree_at h nl (Ref a) (Left (h a)) l \<and> tree_at h nl (Ref a) (Right (h a)) r)"

text \<open>
  The colors and keys of a shape are read from the store. \<open>rootcol\<close> is the color of the
  root, an empty position counting as black; \<open>noRedRed\<close> says that no red node has a red
  child; \<open>pathBlacks\<close> lists, for every path from the root down to an empty position, the
  number of black nodes on it.
\<close>

fun rootcol :: "(nat \<Rightarrow> NodeColor) \<Rightarrow> shape \<Rightarrow> NodeColor" where
  "rootcol col Lf = Black"
| "rootcol col (Nd l a r) = col a"

fun noRedRed :: "(nat \<Rightarrow> NodeColor) \<Rightarrow> shape \<Rightarrow> bool" where
  "noRedRed col Lf = True"
| "noRedRed col (Nd l a r) =
     (noRedRed col l \<and> noRedRed col r
      \<and> (col a = Black \<or> (rootcol col l = Black \<and> rootcol col r = Black)))"

fun pathBlacks :: "(nat \<Rightarrow> NodeColor) \<Rightarrow> shape \<Rightarrow> nat list" where
  "pathBlacks col Lf = [0]"
| "pathBlacks col (Nd l a r) =
     map (\<lambda>n. n + (if col a = Black then 1 else 0)) (pathBlacks col l @ pathBlacks col r)"

fun keys :: "(nat \<Rightarrow> RBNode) \<Rightarrow> shape \<Rightarrow> int list" where
  "keys h Lf = []"
| "keys h (Nd l a r) = keys h l @ Value (h a) # keys h r"

text \<open>
  A state represents the shape \<open>s\<close>: its root pointer leads to \<open>s\<close>, the parent of the root
  is the sentinel, no address occurs twice, and every address in use is below \<open>fresh\<close>.
\<close>

definition rbRepr :: "RedBlackTree \<Rightarrow> shape \<Rightarrow> bool" where
  "rbRepr t s =
     (\<exists>nl. NIL t = Ref nl \<and> nl < fresh t
           \<and> tree_at (cells t) nl (Ref nl) (Root t) s
           \<and> distinct (addrs s) \<and> list_all (\<lambda>a. a < fresh t) (addrs s))"

text \<open>The three red-black properties of the tree a state represents.\<close>

definition rbInvariant :: "RedBlackTree \<Rightarrow> bool" where
  "rbInvariant t =
     (\<exists>s. rbRepr t s
          \<and> rootcol (\<lambda>a. Color (cells t a)) s = Black
          \<and> noRedRed (\<lambda>a. Color (cells t a)) s
          \<and> list_all (\<lambda>n. n = hd (pathBlacks (\<lambda>a. Color (cells t a)) s))
               (pathBlacks (\<lambda>a. Color (cells t a)) s))"

subsection \<open>Positions inside a tree\<close>

text \<open>
  A position in a tree is given by the path from it up to the root: for each ancestor, the
  side on which the position lies below it, its address and the shape of the subtree on
  its other side. The fixup loop walks up this path.
\<close>

datatype dir = DL | DR

type_synonym frame = "dir \<times> nat \<times> shape"

fun plug :: "frame list \<Rightarrow> shape \<Rightarrow> shape" where
  "plug [] s = s"
| "plug ((DL, a, sib) # fs) s = plug fs (Nd s a sib)"
| "plug ((DR, a, sib) # fs) s = plug fs (Nd sib a s)"

fun ctx_parent :: "nat \<Rightarrow> frame list \<Rightarrow> ref" where
  "ctx_parent nl [] = Ref nl"
| "ctx_parent nl ((d, a, sib) # fs) = Ref a"

fun ctx_addrs :: "frame list \<Rightarrow> nat list" where
  "ctx_addrs [] = []"
| "ctx_addrs ((d, a, sib) # fs) = a # addrs sib @ ctx_addrs fs"

fun ctx_at :: "(nat \<Rightarrow> RBNode) \<Rightarrow> nat \<Rightarrow> ref \<Rightarrow> frame list \<Rightarrow> ref \<Rightarrow> bool" where
  "ctx_at h nl rt [] p = (rt = p)"
| "ctx_at h nl rt ((DL, a, sib) # fs) p =
     (a \<noteq> nl \<and> Left (h a) = p \<and> tree_at h nl (Ref a) (Right (h a)) sib
      \<and> Parent (h a) = ctx_parent nl fs \<and> ctx_at h nl rt fs (Ref a))"
| "ctx_at h nl rt ((DR, a, sib) # fs) p =
     (a \<noteq> nl \<and> Right (h a) = p \<and> tree_at h nl (Ref a) (Left (h a)) sib
      \<and> Parent (h a) = ctx_parent nl fs \<and> ctx_at h nl rt fs (Ref a))"

text \<open>
  The number of black nodes on the leftmost path, and the red-black properties of a subtree:
  no red node with a red child, and the same number of black nodes on both sides of every
  node.
\<close>

fun bhOf :: "(nat \<Rightarrow> NodeColor) \<Rightarrow> shape \<Rightarrow> nat" where
  "bhOf col Lf = 0"
| "bhOf col (Nd l a r) = bhOf col l + (if col a = Black then 1 else 0)"

fun rbsub :: "(nat \<Rightarrow> NodeColor) \<Rightarrow> shape \<Rightarrow> bool" where
  "rbsub col Lf = True"
| "rbsub col (Nd l a r) =
     (rbsub col l \<and> rbsub col r \<and> bhOf col l = bhOf col r
      \<and> (col a = Black \<or> (rootcol col l = Black \<and> rootcol col r = Black)))"

text \<open>
  The red-black properties of the path above a position whose subtree has a root of color
  \<open>c\<close> and \<open>n\<close> black nodes on its paths.
\<close>

fun ctx_ok :: "(nat \<Rightarrow> NodeColor) \<Rightarrow> frame list \<Rightarrow> NodeColor \<Rightarrow> nat \<Rightarrow> bool" where
  "ctx_ok col [] c n = True"
| "ctx_ok col ((d, a, sib) # fs) c n =
     (rbsub col sib \<and> bhOf col sib = n
      \<and> (col a = Black \<or> (c = Black \<and> rootcol col sib = Black))
      \<and> ctx_ok col fs (col a) (n + (if col a = Black then 1 else 0)))"

fun ctx_rootcol :: "(nat \<Rightarrow> NodeColor) \<Rightarrow> frame list \<Rightarrow> NodeColor \<Rightarrow> NodeColor" where
  "ctx_rootcol col [] c = c"
| "ctx_rootcol col ((d, a, sib) # fs) c = ctx_rootcol col fs (col a)"

fun root_addr :: "nat \<Rightarrow> shape \<Rightarrow> nat" where
  "root_addr nl Lf = nl"
| "root_addr nl (Nd l a r) = a"

fun top_addr :: "nat \<Rightarrow> frame list \<Rightarrow> nat" where
  "top_addr nl [] = nl"
| "top_addr nl ((d, a, sib) # fs) = a"

section \<open>Notions for the proof of the red-black invariant\<close>

text \<open>
  A write to one field of the node at an address, the form of every \<open>x.f = v\<close> of the
  source: the store changes at this address only.
\<close>

definition upd :: "RedBlackTree \<Rightarrow> nat \<Rightarrow> (RBNode \<Rightarrow> RBNode) \<Rightarrow> RedBlackTree" where
  "upd t a f = t\<lparr>cells := (cells t)(a := f (cells t a))\<rparr>"

text \<open>
  The part of \<open>leftRotate\<close> and \<open>rightRotate\<close> before the call of \<open>addStep\<close>: the writes
  to the links and to the root pointer.
\<close>

definition rb_leftRotateLinks :: "ref \<Rightarrow> RedBlackTree \<Rightarrow> RedBlackTree option" where
  "rb_leftRotateLinks x t = do {
     y \<leftarrow> getRight t x;
     yl \<leftarrow> getLeft t y;
     t \<leftarrow> setRight x yl t;
     yl \<leftarrow> getLeft t y;
     t \<leftarrow> (if yl \<noteq> NIL t then setParent yl x t else Some t);
     xp \<leftarrow> getParent t x;
     t \<leftarrow> setParent y xp t;
     xp \<leftarrow> getParent t x;
     t \<leftarrow> (if xp = NIL t then Some (t\<lparr>Root := y\<rparr>)
           else do {
             xpl \<leftarrow> getLeft t xp;
             if x = xpl then setLeft xp y t else setRight xp y t
           });
     t \<leftarrow> setLeft y x t;
     setParent x y t
   }"

definition rb_rightRotateLinks :: "ref \<Rightarrow> RedBlackTree \<Rightarrow> RedBlackTree option" where
  "rb_rightRotateLinks y t = do {
     x \<leftarrow> getLeft t y;
     xr \<leftarrow> getRight t x;
     t \<leftarrow> setLeft y xr t;
     xr \<leftarrow> getRight t x;
     t \<leftarrow> (if xr \<noteq> NIL t then setParent xr y t else Some t);
     yp \<leftarrow> getParent t y;
     t \<leftarrow> setParent x yp t;
     yp \<leftarrow> getParent t y;
     t \<leftarrow> (if yp = NIL t then Some (t\<lparr>Root := x\<rparr>)
           else do {
             ypl \<leftarrow> getLeft t yp;
             if y = ypl then setLeft yp x t else setRight yp x t
           });
     t \<leftarrow> setRight x y t;
     setParent y x t
   }"

text \<open>
  What these writes of \<open>leftRotate(x)\<close> do to the store, \<open>y\<close> being the right child of \<open>x\<close>,
  \<open>rb\<close> the left child of \<open>y\<close> and \<open>pa\<close> the parent of \<open>x\<close>, either of which may be the
  sentinel (which the rotation does not write): four nodes change links and the root
  pointer moves when \<open>x\<close> was the root. \<open>rotR_effect\<close> is the mirror image for
  \<open>rightRotate(y)\<close>.
\<close>

definition rotL_effect ::
  "RedBlackTree \<Rightarrow> nat \<Rightarrow> nat \<Rightarrow> nat \<Rightarrow> nat \<Rightarrow> nat \<Rightarrow> RedBlackTree \<Rightarrow> bool" where
  "rotL_effect t nl x y rb pa t1 =
     (NIL t1 = NIL t \<and> fresh t1 = fresh t \<and> nextID t1 = nextID t
      \<and> rbSteps t1 = rbSteps t
      \<and> Root t1 = (if pa = nl then Ref y else Root t)
      \<and> cells t1 x = (cells t x)\<lparr>Right := Ref rb, Parent := Ref y\<rparr>
      \<and> cells t1 y = (cells t y)\<lparr>Parent := Ref pa, Left := Ref x\<rparr>
      \<and> (rb \<noteq> nl \<longrightarrow> cells t1 rb = (cells t rb)\<lparr>Parent := Ref x\<rparr>)
      \<and> (pa \<noteq> nl \<longrightarrow> cells t1 pa =
            (if Left (cells t pa) = Ref x then (cells t pa)\<lparr>Left := Ref y\<rparr>
             else (cells t pa)\<lparr>Right := Ref y\<rparr>))
      \<and> (\<forall>k. k \<noteq> x \<longrightarrow> k \<noteq> y \<longrightarrow> (k \<noteq> rb \<or> rb = nl) \<longrightarrow> (k \<noteq> pa \<or> pa = nl)
              \<longrightarrow> cells t1 k = cells t k))"

definition rotR_effect ::
  "RedBlackTree \<Rightarrow> nat \<Rightarrow> nat \<Rightarrow> nat \<Rightarrow> nat \<Rightarrow> nat \<Rightarrow> RedBlackTree \<Rightarrow> bool" where
  "rotR_effect t nl y x rb pa t1 =
     (NIL t1 = NIL t \<and> fresh t1 = fresh t \<and> nextID t1 = nextID t
      \<and> rbSteps t1 = rbSteps t
      \<and> Root t1 = (if pa = nl then Ref x else Root t)
      \<and> cells t1 y = (cells t y)\<lparr>Left := Ref rb, Parent := Ref x\<rparr>
      \<and> cells t1 x = (cells t x)\<lparr>Parent := Ref pa, Right := Ref y\<rparr>
      \<and> (rb \<noteq> nl \<longrightarrow> cells t1 rb = (cells t rb)\<lparr>Parent := Ref y\<rparr>)
      \<and> (pa \<noteq> nl \<longrightarrow> cells t1 pa =
            (if Left (cells t pa) = Ref y then (cells t pa)\<lparr>Left := Ref x\<rparr>
             else (cells t pa)\<lparr>Right := Ref x\<rparr>))
      \<and> (\<forall>k. k \<noteq> x \<longrightarrow> k \<noteq> y \<longrightarrow> (k \<noteq> rb \<or> rb = nl) \<longrightarrow> (k \<noteq> pa \<or> pa = nl)
              \<longrightarrow> cells t1 k = cells t k))"

text \<open>
  A state is well shaped when its root pointer leads to a tree; the snapshot of such a state
  returns, and \<open>snapOf\<close> is its value.
\<close>

definition wellShaped :: "RedBlackTree \<Rightarrow> bool" where
  "wellShaped t = (\<exists>nl par S. NIL t = Ref nl \<and> tree_at (cells t) nl par (Root t) S)"

definition snapOf :: "RedBlackTree \<Rightarrow> TreeNodeSnapshot list" where
  "snapOf t = the (rb_getTreeSnapshot t)"

text \<open>
  The state during \<open>insertFixup\<close>: \<open>z\<close> is the root of the subtree \<open>s\<close> at the position
  \<open>fs\<close>. \<open>shapeInv\<close> is about the links: the path above the position leads from the root
  pointer to \<open>z\<close>, the subtree hangs below the last node of the path, and no address occurs
  twice. \<open>colInv\<close> is about the colors: \<open>z\<close> is red, the red-black properties hold inside
  the subtree and along the path as if \<open>z\<close> were black, and the root is black unless it is
  \<open>z\<close> itself. The only violation left is then a red parent of \<open>z\<close>.
\<close>

definition shapeInv :: "RedBlackTree \<Rightarrow> nat \<Rightarrow> frame list \<Rightarrow> shape \<Rightarrow> bool" where
  "shapeInv t nl fs s =
     (NIL t = Ref nl
      \<and> ctx_at (cells t) nl (Root t) fs (Ref (root_addr nl s))
      \<and> tree_at (cells t) nl (ctx_parent nl fs) (Ref (root_addr nl s)) s
      \<and> distinct (addrs s @ ctx_addrs fs))"

definition colorOf :: "RedBlackTree \<Rightarrow> nat \<Rightarrow> NodeColor" where
  "colorOf t = (\<lambda>a. Color (cells t a))"

definition colInv :: "(nat \<Rightarrow> NodeColor) \<Rightarrow> frame list \<Rightarrow> shape \<Rightarrow> bool" where
  "colInv col fs s =
     (s \<noteq> Lf \<and> rootcol col s = Red \<and> rbsub col s
      \<and> ctx_ok col fs Black (bhOf col s) \<and> ctx_rootcol col fs Black = Black)"

definition fixInv :: "RedBlackTree \<Rightarrow> nat \<Rightarrow> frame list \<Rightarrow> shape \<Rightarrow> bool" where
  "fixInv t nl fs s = (shapeInv t nl fs s \<and> colInv (colorOf t) fs s)"

text \<open>What rotations and recolorings leave unchanged: the sentinel, the counters, and the
  key and id of every node.\<close>

definition sameData :: "RedBlackTree \<Rightarrow> RedBlackTree \<Rightarrow> bool" where
  "sameData t t1 =
     (NIL t1 = NIL t \<and> fresh t1 = fresh t \<and> nextID t1 = nextID t
      \<and> (\<forall>k. Value (cells t1 k) = Value (cells t k) \<and> ID (cells t1 k) = ID (cells t k)))"

text \<open>
  The invariant that \<open>Insert\<close> maintains: the state represents a shape with a black root in
  which no red node has a red child and both sides of every node have the same number of
  black nodes. It implies \<open>rbInvariant\<close>.
\<close>

definition rbGood :: "RedBlackTree \<Rightarrow> shape \<Rightarrow> bool" where
  "rbGood t s =
     (rbRepr t s \<and> rootcol (colorOf t) s = Black \<and> rbsub (colorOf t) s)"

text \<open>
  During the descent of \<open>Insert\<close> with the key \<open>v\<close>, the side taken at the last node
  visited is the one the comparison \<open>z.Value < x.Value\<close> chose.
\<close>

definition dirOK :: "(nat \<Rightarrow> RBNode) \<Rightarrow> int \<Rightarrow> frame list \<Rightarrow> bool" where
  "dirOK h v fs = (case fs of [] \<Rightarrow> True | (d, a, sib) # gs \<Rightarrow> (d = DL) = (v < Value (h a)))"

text \<open>
  Reading a snapshot: \<open>snapHas snap i c par\<close> says that the snapshot has an entry for a node
  with id \<open>i\<close>, of color \<open>c\<close>, whose parent has the id \<open>par\<close> (\<open>None\<close> for the root).
  \<open>topID\<close> is the id of the node just above a position, \<open>None\<close> at the root. \<open>case3Trace\<close> is
  the trace of Case 3 for a parent with id \<open>pid\<close> and a grandparent with id \<open>gid\<close> below a
  node with id \<open>gpar\<close>: a Rebalance step showing the tree before the case (red parent
  below the black grandparent), a Color-Change step showing the tree recolored and not yet
  rotated (black parent, still below the now red grandparent), and the rotation step
  showing the tree rotated (the red grandparent below the black parent).
\<close>

definition snapHas :: "TreeNodeSnapshot list \<Rightarrow> int \<Rightarrow> NodeColor \<Rightarrow> int option \<Rightarrow> bool" where
  "snapHas snap i c par =
     list_ex (\<lambda>n. snapID n = i \<and> snapColor n = Some c \<and> snapParentID n = par) snap"

definition topID :: "RedBlackTree \<Rightarrow> frame list \<Rightarrow> int option" where
  "topID t fs = (case fs of [] \<Rightarrow> None | (d, a, sib) # gs \<Rightarrow> Some (ID (cells t a)))"

definition case3Trace :: "RBStep list \<Rightarrow> StepType \<Rightarrow> int \<Rightarrow> int \<Rightarrow> int option \<Rightarrow> bool" where
  "case3Trace ss rot pid gid gpar =
     (case ss of
        [s1, s2, s3] \<Rightarrow>
          Type s1 = StepRebalance \<and> Type s2 = StepColorChange \<and> Type s3 = rot
          \<and> snapHas (TreeState s1) pid Red (Some gid) \<and> snapHas (TreeState s1) gid Black gpar
          \<and> snapHas (TreeState s2) pid Black (Some gid) \<and> snapHas (TreeState s2) gid Red gpar
          \<and> snapHas (TreeState s3) pid Black gpar \<and> snapHas (TreeState s3) gid Red (Some pid)
      | _ \<Rightarrow> False)"

text \<open>The keys stored in an AVL tree, in order.\<close>

fun avl_values :: "AVLNode \<Rightarrow> int list" where
  "avl_values ANil = []"
| "avl_values (ANode i v h l r) = avl_values l @ v # avl_values r"

section \<open>Properties of the benchmark harness\<close>

text \<open>
  C10: the \<open>MemoryUsed\<close> field of a worker's final result is the unsigned 64-bit difference
  \<open>endMem - startMem\<close> of the two allocator readings; when the end reading is below the
  start reading the difference wraps modulo \<open>2^64\<close>, so the reported value is
  \<open>2^64 - (startMem - endMem)\<close>, a huge positive number.
\<close>

theorem memoryUsed_wraps:
  "MemoryUsed (last (runSingleBenchmark e structure operation data)) = endMem e - startMem e
   \<and> (endMem e < startMem e \<longrightarrow>
        unat (MemoryUsed (last (runSingleBenchmark e structure operation data)))
          = 2 ^ 64 + unat (endMem e) - unat (startMem e)
        \<and> 2 ^ 64 - unat (startMem e)
            \<le> unat (MemoryUsed (last (runSingleBenchmark e structure operation data))))"
proof -
  have fin: "MemoryUsed (last (runSingleBenchmark e structure operation data))
               = endMem e - startMem e"
    by (simp add: runSingleBenchmark_def Let_def finalResult_def)
  have wrap: "unat (endMem e - startMem e) = 2 ^ 64 + unat (endMem e) - unat (startMem e)"
    if lt: "endMem e < startMem e"
  proof -
    have "unat (endMem e) < unat (startMem e)"
      using lt by (simp add: word_less_nat_alt)
    moreover have "unat (startMem e) < 2 ^ 64"
      using unsigned_less [of "startMem e"] by simp
    ultimately show ?thesis
      by (simp add: unat_sub_if')
  qed
  show ?thesis using fin wrap by auto
qed

theorem memoryUsed_wraps_witness:
  "endMem stoppedEnv < startMem stoppedEnv
   \<and> unat (MemoryUsed (last (runSingleBenchmark stoppedEnv ''hashmap'' ''insert'' [1, 2, 3])))
       = 18446744073709551556"
proof -
  have lt: "endMem stoppedEnv < startMem stoppedEnv"
    by (simp add: stoppedEnv_def)
  have "unat (MemoryUsed (last (runSingleBenchmark stoppedEnv ''hashmap'' ''insert'' [1, 2, 3])))
          = 2 ^ 64 + unat (endMem stoppedEnv) - unat (startMem stoppedEnv)"
    using lt memoryUsed_wraps [of stoppedEnv "''hashmap''" "''insert''" "[1, 2, 3]"]
    by blast
  also have "\<dots> = 18446744073709551556"
    by (simp add: stoppedEnv_def)
  finally show ?thesis using lt by simp
qed

text \<open>
  C3 (as the code behaves): a worker whose loop observes the stop signal at its first poll
  returns from the loop without a progress report, and \<open>runSingleBenchmark\<close> then still
  hands the callback its final result, with \<open>Completed = True\<close> and \<open>Progress = 100\<close>.
\<close>

theorem stopped_worker_reports_completed:
  "stopped stoppedEnv 0
   \<and> runSingleBenchmark stoppedEnv ''hashmap'' ''insert'' [1, 2, 3]
       = [\<lparr>Structure = ''hashmap'', Operation = ''insert'', DataSize = 3, Duration = 2,
           MemoryUsed = 40 - 100, OpsPerSec = Some 1500, Progress = 100, Completed = True\<rparr>]"
  by (simp add: runSingleBenchmark_def benchmarkHashMap_def finalResult_def stoppedEnv_def)

section \<open>Properties of the graph search\<close>

lemma steps_addStep:
  "steps (addStep g ty desc path ce st) = steps st @
     [\<lparr>Type = ty, Description = desc, NodeID = None,
       GraphNodes = graphNodes g (distances st) (visited st) path,
       GraphEdges = graphEdges g path ce, Highlight = []\<rparr>]"
  by (simp add: addStep_def)

lemma addStep_fields:
  "distances (addStep g ty desc path ce st) = distances st"
  "previous (addStep g ty desc path ce st) = previous st"
  "visited (addStep g ty desc path ce st) = visited st"
  "pq (addStep g ty desc path ce st) = pq st"
  by (simp_all add: addStep_def)

text \<open>Over the whole edge loop: one step for each edge whose far end is not visited.\<close>

lemma relaxEdge_visited: "visited (relaxEdge g current st edge) = visited st"
  by (simp add: relaxEdge_def Let_def addStep_fields)

lemma relaxEdges_step_count:
  "length (steps (foldl (relaxEdge g current) st es))
     = length (steps st) + length (filter (\<lambda>e. \<not> visited st (To e)) es)"
proof (induction es arbitrary: st)
  case Nil
  then show ?case by simp
next
  case (Cons e es)
  have "length (steps (relaxEdge g current st e))
          = length (steps st) + (if visited st (To e) then 0 else 1)"
    by (simp add: relaxEdge_def Let_def steps_addStep)
  then show ?case
    using Cons.IH [of "relaxEdge g current st e"] by (simp add: relaxEdge_visited)
qed

text \<open>The iteration-wise view is the run: every loop state lies on the run of \<open>Dijkstra\<close>.\<close>

lemma Dijkstra_init: "Dijkstra g start endN = dijkstraLoop g start endN (dijkstraInit g start)"
  by (simp add: Dijkstra_def dijkstraInit_def Let_def)

lemma loopNext_run:
  assumes "loopNext g endN st = Some st1"
  shows "dijkstraLoop g start endN st = dijkstraLoop g start endN st1"
  using assms
  by (subst dijkstraLoop.simps)
     (auto simp: loopNext_def selected_def afterSelect_def edgeLoopState_def Let_def
           split: if_splits)

lemma loopStateAt_run:
  "loopStateAt g start endN n = Some st \<Longrightarrow>
     dijkstraLoop g start endN st = Dijkstra g start endN"
proof (induction n arbitrary: st)
  case 0
  then show ?case by (simp add: Dijkstra_init)
next
  case (Suc n)
  then obtain st0 where a: "loopStateAt g start endN n = Some st0"
    and b: "loopNext g endN st0 = Some st"
    by (auto split: option.splits)
  show ?case using Suc.IH[OF a] loopNext_run[OF b] by simp
qed

lemma relaxEdge_steps_prefix: "\<exists>rest. steps (relaxEdge g c st e) = steps st @ rest"
  by (simp add: relaxEdge_def Let_def steps_addStep)

lemma relaxEdges_steps_prefix: "\<exists>rest. steps (foldl (relaxEdge g c) st es) = steps st @ rest"
proof (induction es arbitrary: st)
  case Nil
  then show ?case by simp
next
  case (Cons e es)
  obtain r1 where r1: "steps (relaxEdge g c st e) = steps st @ r1"
    using relaxEdge_steps_prefix by blast
  obtain r2 where "steps (foldl (relaxEdge g c) (relaxEdge g c st e) es)
                     = steps (relaxEdge g c st e) @ r2"
    using Cons.IH by blast
  then show ?case using r1 by simp
qed

lemma dijkstraLoop_steps_prefix:
  assumes "dijkstraLoop g start endN st = Some r"
  shows "\<exists>rest. Steps r = steps st @ rest"
  apply (rule dijkstraLoop.raw_induct
           [where P = "\<lambda>g start endN st r. \<exists>rest. Steps r = steps st @ rest", OF _ assms])
  subgoal premises prems for loop g start endN st r
  proof -
    note IH = prems(1) and body = prems(2)
    show ?thesis
    proof (cases "pq st = []")
      case True
      then show ?thesis using body by (auto simp: notFoundResult_def Let_def steps_addStep)
    next
      case ne: False
      let ?cur = "fst (heapPop (pq st))"
      let ?st1 = "st\<lparr>pq := snd (heapPop (pq st))\<rparr>"
      let ?st2 = "?st1\<lparr>visited := (visited ?st1)(node ?cur := True)\<rparr>"
      let ?st3 = "addStep g StepSelectNode
                    [ArgStr (node ?cur), ArgInt (distances ?st2 (node ?cur))] [] None ?st2"
      show ?thesis
      proof (cases "visited st (node ?cur)")
        case True
        then have "loop g start endN ?st1 = Some r" using body ne by (simp add: Let_def)
        from IH[OF this] show ?thesis by simp
      next
        case nv: False
        show ?thesis
        proof (cases "node ?cur = endN")
          case True
          then obtain path where "r = completeResult g endN path ?st3"
            using body ne nv by (auto simp: Let_def split: option.splits)
          then show ?thesis by (simp add: completeResult_def Let_def steps_addStep)
        next
          case False
          then have "loop g start endN (foldl (relaxEdge g (node ?cur)) ?st3
                       (adjacent g (node ?cur))) = Some r"
            using body ne nv by (simp add: Let_def)
          from IH[OF this] obtain rest where
            "Steps r = steps (foldl (relaxEdge g (node ?cur)) ?st3 (adjacent g (node ?cur))) @ rest"
            by blast
          moreover obtain r2 where
            "steps (foldl (relaxEdge g (node ?cur)) ?st3 (adjacent g (node ?cur)))
               = steps ?st3 @ r2"
            using relaxEdges_steps_prefix by blast
          ultimately show ?thesis by (simp add: steps_addStep)
        qed
      qed
    qed
  qed
  done

lemma edgeLoopState_Suc:
  "i < length (adjacent g (selected st)) \<Longrightarrow>
     edgeLoopState g st (Suc i)
       = relaxEdge g (selected st) (edgeLoopState g st i) (adjacent g (selected st) ! i)"
  by (simp add: edgeLoopState_def take_Suc_conv_app_nth)

lemma edgeLoopState_prefix:
  "i \<le> length (adjacent g (selected st)) \<Longrightarrow>
     \<exists>rest. steps (edgeLoopState g st (length (adjacent g (selected st))))
              = steps (edgeLoopState g st i) @ rest"
proof -
  assume "i \<le> length (adjacent g (selected st))"
  let ?es = "adjacent g (selected st)"
  have "foldl (relaxEdge g (selected st)) (afterSelect g st) ?es
          = foldl (relaxEdge g (selected st)) (edgeLoopState g st i) (drop i ?es)"
    unfolding edgeLoopState_def by (metis append_take_drop_id foldl_append)
  then show ?thesis
    using relaxEdges_steps_prefix[of g "selected st" "edgeLoopState g st i" "drop i ?es"]
    by (simp add: edgeLoopState_def)
qed

text \<open>
  C5, as the code has it. In an iteration of the main loop of \<open>Dijkstra(start, end)\<close> that
  selects a node other than \<open>end\<close>, the edge loop examines every edge out of the selected
  node, in order. Consider the examination of the edge at position \<open>i\<close>. If its far end is
  already visited, the edge is skipped and nothing is emitted. Otherwise exactly one step
  is appended: an Update-Distance step, with the neighbour pushed on the queue and its
  distance and predecessor updated, when the new distance is smaller than the neighbour's
  current one, and a Compare step, with queue, distances and predecessors unchanged,
  otherwise. The step stays in the trace: the steps of the result, if the run returns one,
  begin with the steps emitted so far.
\<close>

theorem dijkstra_edge_examined:
  assumes at: "loopStateAt g start endN n = Some st"
    and ne: "pq st \<noteq> []" and nv: "\<not> visited st (selected st)"
    and nend: "selected st \<noteq> endN"
    and i: "i < length (adjacent g (selected st))"
  shows "(let current = selected st; edge = adjacent g current ! i;
              before = edgeLoopState g st i; after = edgeLoopState g st (Suc i);
              newDist = add64 (distances before current) (Weight edge)
          in (visited before (To edge) \<longrightarrow> after = before)
           \<and> (\<not> visited before (To edge) \<longrightarrow>
                (\<exists>s. steps after = steps before @ [s]
                   \<and> (if newDist < distances before (To edge)
                       then Type s = StepUpdateDist
                            \<and> pq after = heapPush (pq before)
                                           \<lparr>node = To edge, priority = newDist\<rparr>
                            \<and> distances after = (distances before)(To edge := newDist)
                            \<and> previous after = (previous before)(To edge := current)
                       else Type s = StepCompare
                            \<and> pq after = pq before
                            \<and> distances after = distances before
                            \<and> previous after = previous before)))
           \<and> (\<forall>r. Dijkstra g start endN = Some r
                  \<longrightarrow> (\<exists>rest. Steps r = steps after @ rest)))
         \<and> loopStateAt g start endN (Suc n)
             = Some (edgeLoopState g st (length (adjacent g (selected st))))"
proof -
  let ?es = "adjacent g (selected st)"
  let ?after = "edgeLoopState g st (Suc i)"
  have nxt: "loopNext g endN st = Some (edgeLoopState g st (length ?es))"
    using ne nv nend by (simp add: loopNext_def)
  then have nxt2: "loopStateAt g start endN (Suc n) = Some (edgeLoopState g st (length ?es))"
    using at by simp
  have run: "\<exists>rest. Steps r = steps ?after @ rest" if r: "Dijkstra g start endN = Some r" for r
  proof -
    have "dijkstraLoop g start endN (edgeLoopState g st (length ?es)) = Some r"
      using loopStateAt_run[OF nxt2] r by simp
    then obtain r1 where "Steps r = steps (edgeLoopState g st (length ?es)) @ r1"
      using dijkstraLoop_steps_prefix by blast
    moreover obtain r2 where "steps (edgeLoopState g st (length ?es)) = steps ?after @ r2"
      using edgeLoopState_prefix[of "Suc i" g st] i by auto
    ultimately show ?thesis by simp
  qed
  show ?thesis
    unfolding Let_def edgeLoopState_Suc[OF i]
    using run[unfolded edgeLoopState_Suc[OF i]] nxt2
    by (simp add: relaxEdge_def Let_def steps_addStep addStep_fields)
qed


lemma scenario_iteration_C:
  "(case loopStateAt scenarioGraph ''A'' ''D'' 1 of None \<Rightarrow> False
    | Some st \<Rightarrow>
        pq st \<noteq> [] \<and> \<not> visited st (selected st) \<and> selected st = ''C''
        \<and> adjacent scenarioGraph ''C''
            = [\<lparr>To = ''A'', Weight = 2\<rparr>, \<lparr>To = ''B'', Weight = 1\<rparr>, \<lparr>To = ''D'', Weight = 8\<rparr>]
        \<and> visited (edgeLoopState scenarioGraph st 0) ''A''
        \<and> \<not> visited (edgeLoopState scenarioGraph st 1) ''B''
        \<and> add64 (distances (edgeLoopState scenarioGraph st 1) ''C'') 1 = 3
        \<and> distances (edgeLoopState scenarioGraph st 1) ''B'' = 4)"
  by code_simp

theorem dijkstra_edge_examined_witness:
  "\<exists>st. loopStateAt scenarioGraph ''A'' ''D'' 1 = Some st
       \<and> pq st \<noteq> [] \<and> \<not> visited st (selected st) \<and> selected st = ''C''
       \<and> adjacent scenarioGraph ''C'' ! 1 = \<lparr>To = ''B'', Weight = 1\<rparr>
       \<and> \<not> visited (edgeLoopState scenarioGraph st 1) ''B''
       \<and> (\<exists>s. steps (edgeLoopState scenarioGraph st 2)
                  = steps (edgeLoopState scenarioGraph st 1) @ [s]
              \<and> Type s = StepUpdateDist)
       \<and> distances (edgeLoopState scenarioGraph st 2) ''B'' = 3
       \<and> (\<forall>r. Dijkstra scenarioGraph ''A'' ''D'' = Some r
              \<longrightarrow> (\<exists>rest. Steps r = steps (edgeLoopState scenarioGraph st 2) @ rest))"
proof -
  obtain st where at: "loopStateAt scenarioGraph ''A'' ''D'' 1 = Some st"
    and ne: "pq st \<noteq> []" and nv: "\<not> visited st (selected st)" and sel: "selected st = ''C''"
    and adj: "adjacent scenarioGraph ''C''
            = [\<lparr>To = ''A'', Weight = 2\<rparr>, \<lparr>To = ''B'', Weight = 1\<rparr>, \<lparr>To = ''D'', Weight = 8\<rparr>]"
    and nvB: "\<not> visited (edgeLoopState scenarioGraph st 1) ''B''"
    and nd: "add64 (distances (edgeLoopState scenarioGraph st 1) ''C'') 1 = 3"
    and dB: "distances (edgeLoopState scenarioGraph st 1) ''B'' = 4"
    using scenario_iteration_C
    by (cases "loopStateAt scenarioGraph ''A'' ''D'' 1") auto
  have nend: "selected st \<noteq> ''D''" using sel by simp
  have i: "1 < length (adjacent scenarioGraph (selected st))" using sel adj by simp
  have two: "Suc 1 = 2" by simp
  from dijkstra_edge_examined [OF at ne nv nend i]
  show ?thesis
    unfolding Let_def sel two using at ne nv sel adj nvB nd dB
    by (intro exI[of _ st]) auto
qed

text \<open>
  C5 as stated fails on the edge from C back to A in the scenario graph: in the iteration
  of \<open>Dijkstra(A, D)\<close> that selects C, the edge loop examines this edge first, A is visited,
  and no step is emitted for it.
\<close>

theorem examined_edge_without_step:
  "\<exists>st. loopStateAt scenarioGraph ''A'' ''D'' 1 = Some st
       \<and> pq st \<noteq> [] \<and> \<not> visited st (selected st) \<and> selected st = ''C''
       \<and> adjacent scenarioGraph ''C'' ! 0 = \<lparr>To = ''A'', Weight = 2\<rparr>
       \<and> steps (edgeLoopState scenarioGraph st (Suc 0))
           = steps (edgeLoopState scenarioGraph st 0)"
proof -
  obtain st where at: "loopStateAt scenarioGraph ''A'' ''D'' 1 = Some st"
    and ne: "pq st \<noteq> []" and nv: "\<not> visited st (selected st)" and sel: "selected st = ''C''"
    and adj: "adjacent scenarioGraph ''C''
            = [\<lparr>To = ''A'', Weight = 2\<rparr>, \<lparr>To = ''B'', Weight = 1\<rparr>, \<lparr>To = ''D'', Weight = 8\<rparr>]"
    and vA: "visited (edgeLoopState scenarioGraph st 0) ''A''"
    using scenario_iteration_C
    by (cases "loopStateAt scenarioGraph ''A'' ''D'' 1") auto
  have "edgeLoopState scenarioGraph st (Suc 0)
          = relaxEdge scenarioGraph ''C'' (edgeLoopState scenarioGraph st 0) \<lparr>To = ''A'', Weight = 2\<rparr>"
    using edgeLoopState_Suc[of 0 scenarioGraph st] sel adj by simp
  then have "steps (edgeLoopState scenarioGraph st (Suc 0))
               = steps (edgeLoopState scenarioGraph st 0)"
    using vA by (simp add: relaxEdge_def)
  then show ?thesis using at ne nv sel adj by (intro exI[of _ st]) simp
qed

text \<open>
  C8: on the scenario graph, \<open>Dijkstra\<close> from A to D returns a success result whose message
  reports the distance 8; its last step is the only Complete step, formats the path
  A, C, B, D and the distance 8, and flags exactly these nodes as lying on the path.
\<close>

lemma dijkstra_scenario_run:
  "map_option (\<lambda>r. (Success r, Message r, map Type (Steps r), Description (last (Steps r)),
                     map (\<lambda>n. (gnID n, gnInPath n, gnDistance n)) (GraphNodes (last (Steps r)))))
     (Dijkstra scenarioGraph ''A'' ''D'')
   = Some (True, Some [ArgInt 8],
       [StepVisit, StepSelectNode, StepUpdateDist, StepUpdateDist, StepSelectNode,
        StepUpdateDist, StepUpdateDist, StepSelectNode, StepUpdateDist, StepSelectNode,
        StepComplete],
       [ArgPath [''A'', ''C'', ''B'', ''D''], ArgInt 8],
       [(''A'', True, Some 0), (''B'', True, Some 3), (''C'', True, Some 2),
        (''D'', True, Some 8)])"
  by code_simp

theorem dijkstra_scenario:
  "\<exists>r. Dijkstra scenarioGraph ''A'' ''D'' = Some r
       \<and> Success r
       \<and> Message r = Some [ArgInt 8]
       \<and> Type (last (Steps r)) = StepComplete
       \<and> length (filter (\<lambda>s. Type s = StepComplete) (Steps r)) = 1
       \<and> Description (last (Steps r)) = [ArgPath [''A'', ''C'', ''B'', ''D''], ArgInt 8]
       \<and> map (\<lambda>n. (gnID n, gnInPath n, gnDistance n)) (GraphNodes (last (Steps r)))
           = [(''A'', True, Some 0), (''B'', True, Some 3), (''C'', True, Some 2),
              (''D'', True, Some 8)]"
proof -
  obtain r where r: "Dijkstra scenarioGraph ''A'' ''D'' = Some r"
    using dijkstra_scenario_run by (cases "Dijkstra scenarioGraph ''A'' ''D''") auto
  have tys: "map Type (Steps r) =
       [StepVisit, StepSelectNode, StepUpdateDist, StepUpdateDist, StepSelectNode,
        StepUpdateDist, StepUpdateDist, StepSelectNode, StepUpdateDist, StepSelectNode,
        StepComplete]"
    using dijkstra_scenario_run r by simp
  have ne: "Steps r \<noteq> []"
    using tys by auto
  have "Type (last (Steps r)) = last (map Type (Steps r))"
    using ne by (simp add: last_map)
  then have lastty: "Type (last (Steps r)) = StepComplete"
    by (simp add: tys)
  have "length (filter (\<lambda>s. Type s = StepComplete) (Steps r))
          = length (filter (\<lambda>t. t = StepComplete) (map Type (Steps r)))"
    by (simp add: filter_map comp_def)
  then have one: "length (filter (\<lambda>s. Type s = StepComplete) (Steps r)) = 1"
    by (simp add: tys)
  show ?thesis
    using dijkstra_scenario_run r lastty one by auto
qed



section \<open>Properties of the AVL tree\<close>


lemma height_nonneg: "avlInv n \<Longrightarrow> 0 \<le> height n"
  by (induction n) auto

lemma height_pos: "avlInv n \<Longrightarrow> n \<noteq> ANil \<Longrightarrow> 1 \<le> height n"
  using height_nonneg by (cases n) fastforce+

lemma height_zero_nil: "avlInv n \<Longrightarrow> height n \<le> 0 \<Longrightarrow> n = ANil"
  using height_pos by fastforce

lemma rebalance_no_rotation:
  assumes "- 1 \<le> height l - height r" "height l - height r \<le> 1"
  shows "avl_insertRebalance (ANode i k h l r) v t
           = Some (ANode i k (1 + max (height l) (height r)) l r, t)"
  using assms by (simp add: avl_insertRebalance_def Let_def)

lemma rebalance_left:
  assumes "avlInv l1" "avlInv r" "v < k" "height l1 = height r + 2"
    and "case l1 of ANil \<Rightarrow> False
         | ANode li lk lh ll lr \<Rightarrow> (v < lk \<and> height lr < height ll) \<or> (lk < v \<and> height ll < height lr)"
  shows "\<exists>n1 t1. avl_insertRebalance (ANode i k h l1 r) v t = Some (n1, t1)
           \<and> avlInv n1 \<and> n1 \<noteq> ANil \<and> height n1 = height r + 2 \<and> avlRoot t1 = avlRoot t
           \<and> avlNextID t1 = avlNextID t"
proof (cases l1)
  case ANil
  then show ?thesis using assms by simp
next
  case (ANode li lk lh ll lr)
  note l1 = this
  show ?thesis
  proof (cases "v < lk")
    case True
    then show ?thesis using assms l1
      by (auto simp: avl_insertRebalance_def Let_def avl_rightRotate_def avl_addStep_def)
  next
    case False
    then have gt: "lk < v" "height ll < height lr" using assms l1 by auto
    then have "lr \<noteq> ANil" using assms l1 height_nonneg[of ll] by auto
    then obtain ri rk rh rl rr where lr: "lr = ANode ri rk rh rl rr" by (cases lr) auto
    show ?thesis using assms l1 gt lr
      by (auto simp: avl_insertRebalance_def Let_def avl_rightRotate_def avl_leftRotate_def avl_addStep_def)
  qed
qed


lemma rebalance_right:
  assumes "avlInv l" "avlInv r1" "k < v" "height r1 = height l + 2"
    and "case r1 of ANil \<Rightarrow> False
         | ANode ri rk rh rl rr \<Rightarrow> (v < rk \<and> height rr < height rl) \<or> (rk < v \<and> height rl < height rr)"
  shows "\<exists>n1 t1. avl_insertRebalance (ANode i k h l r1) v t = Some (n1, t1)
           \<and> avlInv n1 \<and> n1 \<noteq> ANil \<and> height n1 = height l + 2 \<and> avlRoot t1 = avlRoot t
           \<and> avlNextID t1 = avlNextID t"
proof (cases r1)
  case ANil
  then show ?thesis using assms by simp
next
  case (ANode ri rk rh rl rr)
  note r1 = this
  show ?thesis
  proof (cases "rk < v")
    case True
    then show ?thesis using assms r1
      by (auto simp: avl_insertRebalance_def Let_def avl_leftRotate_def avl_addStep_def)
  next
    case False
    then have lt: "v < rk" "height rr < height rl" using assms r1 by auto
    then have "rl \<noteq> ANil" using assms r1 height_nonneg[of rr] by auto
    then obtain li lk lh ll lr where rl: "rl = ANode li lk lh ll lr" by (cases rl) auto
    show ?thesis using assms r1 lt rl
      by (auto simp: avl_insertRebalance_def Let_def avl_rightRotate_def avl_leftRotate_def avl_addStep_def)
  qed
qed

lemma avl_insert_inv:
  assumes "avlInv n"
  shows "\<exists>n1 t1. avl_insert n v t = Some (n1, t1) \<and> avlInv n1 \<and> n1 \<noteq> ANil
           \<and> grown v n n1 \<and> avlRoot t1 = avlRoot t"
  using assms
proof (induction n arbitrary: t)
  case ANil
  then show ?case by (simp add: Let_def grown_def avl_addStep_def)
next
  case (ANode i k h l r)
  have invl: "avlInv l" and invr: "avlInv r"
    and hh: "h = 1 + max (height l) (height r)"
    and bal: "- 1 \<le> height l - height r" "height l - height r \<le> 1"
    using ANode.prems by auto
  let ?t1 = "avl_addStep StepCompare [ArgInt v, ArgInt k] (Some i) [i] t"
  have root1: "avlRoot ?t1 = avlRoot t" by (simp add: avl_addStep_def)
  consider (lt) "v < k" | (gt) "k < v" | (eq) "v = k" by linarith
  then show ?case
  proof cases
    case lt
    obtain l1 t2 where ins: "avl_insert l v ?t1 = Some (l1, t2)" and inv1: "avlInv l1"
      and ne: "l1 \<noteq> ANil" and gr: "grown v l l1" and root2: "avlRoot t2 = avlRoot ?t1"
      using ANode.IH(1)[OF invl, of ?t1] by blast
    have step: "avl_insert (ANode i k h l r) v t = avl_insertRebalance (ANode i k h l1 r) v t2"
      using lt ins by (simp add: Let_def)
    show ?thesis
    proof (cases "height l1 = height r + 2")
      case True
      then have "height l1 = height l + 1" "l \<noteq> ANil"
        using gr bal height_nonneg[OF invr] by (auto simp: grown_def)
      then have shape: "case l1 of ANil \<Rightarrow> False
         | ANode li lk lh ll lr \<Rightarrow> (v < lk \<and> height lr < height ll) \<or> (lk < v \<and> height ll < height lr)"
        using gr by (auto simp: grown_def)
      obtain n1 t1 where "avl_insertRebalance (ANode i k h l1 r) v t2 = Some (n1, t1)"
        "avlInv n1" "n1 \<noteq> ANil" "height n1 = height r + 2" "avlRoot t1 = avlRoot t2"
        using rebalance_left[OF inv1 invr lt True shape, of i h t2] by blast
      then show ?thesis using step root1 root2 True hh bal \<open>height l1 = height l + 1\<close>
        by (auto simp: grown_def simp del: avl_insert.simps)
    next
      case False
      then have b1: "- 1 \<le> height l1 - height r" "height l1 - height r \<le> 1"
        using gr bal by (auto simp: grown_def)
      have "avl_insertRebalance (ANode i k h l1 r) v t2
              = Some (ANode i k (1 + max (height l1) (height r)) l1 r, t2)"
        using rebalance_no_rotation[OF b1] .
      then show ?thesis using step root1 root2 hh bal b1 inv1 invr gr lt
        by (auto simp: grown_def simp del: avl_insert.simps)
    qed
  next
    case gt
    obtain r1 t2 where ins: "avl_insert r v ?t1 = Some (r1, t2)" and inv1: "avlInv r1"
      and ne: "r1 \<noteq> ANil" and gr: "grown v r r1" and root2: "avlRoot t2 = avlRoot ?t1"
      using ANode.IH(2)[OF invr, of ?t1] by blast
    have step: "avl_insert (ANode i k h l r) v t = avl_insertRebalance (ANode i k h l r1) v t2"
      using gt ins by (simp add: Let_def)
    show ?thesis
    proof (cases "height r1 = height l + 2")
      case True
      then have "height r1 = height r + 1" "r \<noteq> ANil"
        using gr bal height_nonneg[OF invl] by (auto simp: grown_def)
      then have shape: "case r1 of ANil \<Rightarrow> False
         | ANode ri rk rh rl rr \<Rightarrow> (v < rk \<and> height rr < height rl) \<or> (rk < v \<and> height rl < height rr)"
        using gr by (auto simp: grown_def)
      obtain n1 t1 where "avl_insertRebalance (ANode i k h l r1) v t2 = Some (n1, t1)"
        "avlInv n1" "n1 \<noteq> ANil" "height n1 = height l + 2" "avlRoot t1 = avlRoot t2"
        using rebalance_right[OF invl inv1 gt True shape, of i h t2] by blast
      then show ?thesis using step root1 root2 True hh bal \<open>height r1 = height r + 1\<close>
        by (auto simp: grown_def simp del: avl_insert.simps)
    next
      case False
      then have b1: "- 1 \<le> height l - height r1" "height l - height r1 \<le> 1"
        using gr bal by (auto simp: grown_def)
      have "avl_insertRebalance (ANode i k h l r1) v t2
              = Some (ANode i k (1 + max (height l) (height r1)) l r1, t2)"
        using rebalance_no_rotation[OF b1] .
      then show ?thesis using step root1 root2 hh bal b1 inv1 invl gr gt
        by (auto simp: grown_def simp del: avl_insert.simps)
    qed
  next
    case eq
    then show ?thesis using ANode.prems root1
      by (simp add: Let_def grown_def)
  qed
qed

lemma AVL_Insert_inv:
  assumes "avlInv (avlRoot t)"
  shows "\<exists>res t1. AVL_Insert v t = Some (res, t1) \<and> avlInv (avlRoot t1)"
proof -
  let ?t1 = "avl_addStep StepInsert [ArgInt v] None [] (avl_clearSteps t)"
  have r: "avlRoot ?t1 = avlRoot t" by (simp add: avl_addStep_def avl_clearSteps_def)
  obtain n1 t2 where "avl_insert (avlRoot ?t1) v ?t1 = Some (n1, t2)" "avlInv n1"
    using avl_insert_inv[of "avlRoot ?t1" v ?t1] assms r by auto
  then show ?thesis
    by (simp add: AVL_Insert_def Let_def avl_addStep_def)
qed

lemma avl_insertAll_inv:
  "avlInv (avlRoot t) \<Longrightarrow> \<exists>t1. avl_insertAll ks t = Some t1 \<and> avlInv (avlRoot t1)"
proof (induction ks arbitrary: t)
  case Nil
  then show ?case by simp
next
  case (Cons k ks)
  obtain res t1 where "AVL_Insert k t = Some (res, t1)" "avlInv (avlRoot t1)"
    using AVL_Insert_inv[OF Cons.prems] by blast
  then show ?case using Cons.IH[of t1] by simp
qed

text \<open>
  C6: every sequence of calls of \<open>Insert\<close> on an initially empty AVL tree returns, and in
  the tree it leaves every node has a balance factor between -1 and 1 and stores the height
  1 + max of the heights of its children, an absent child counting 0. The sequence is
  arbitrary, so this holds after each of its calls.
\<close>

theorem avl_inserts_balanced:
  "\<exists>t. avl_insertAll ks NewAVLTree = Some t \<and> avlInv (avlRoot t)"
  using avl_insertAll_inv[of NewAVLTree ks] by (simp add: NewAVLTree_def)

theorem avl_inserts_balanced_witness:
  "\<exists>t. avl_insertAll [10, 20, 30, 25, 27, 5, 1, 20] NewAVLTree = Some t \<and> avlInv (avlRoot t)"
  using avl_inserts_balanced [of "[10, 20, 30, 25, 27, 5, 1, 20]"] by simp




section \<open>Properties of the red-black tree\<close>

text \<open>
  C1 on the red-black tree: \<open>Insert\<close> has no test for equality. Inserting 5 into a tree
  that holds 5 compares with the root, then creates a second node with key 5 as its right
  child (an Insert step after the comparison), and the final snapshot has two nodes.
\<close>

theorem rb_insert_duplicate_stored:
  "do { (r1, t1) \<leftarrow> RB_Insert 5 NewRedBlackTree;
        (r2, t2) \<leftarrow> RB_Insert 5 t1;
        Some (Success r2, map Type (Steps r2),
              map (\<lambda>s. (snapID s, snapValue s, snapParentID s)) (FinalTree r2)) }
   = Some (True, [StepInsert, StepCompare, StepInsert, StepComplete],
           [(0, 5, None), (1, 5, Some 0)])"
  by code_simp

text \<open>
  C4 on the red-black tree: after Insert(5), Insert(5), Delete(5), where the delete
  succeeds, Search(5) still succeeds with a trace ending in a Found step, the second copy
  of the key being left in the tree.
\<close>

theorem rb_search_finds_deleted_key:
  "do { (r1, t1) \<leftarrow> RB_Insert 5 NewRedBlackTree;
        (r2, t2) \<leftarrow> RB_Insert 5 t1;
        (r3, t3) \<leftarrow> RB_Delete 5 t2;
        (r4, t4) \<leftarrow> RB_Search 5 t3;
        Some (Success r3, Type (last (Steps r3)), Success r4, map Type (Steps r4)) }
   = Some (True, StepComplete, True, [StepCompare, StepFound])"
  by code_simp

section \<open>The red-black invariant is maintained by Insert\<close>

text \<open>
  The proof follows the code: the descent finds the position of the new node, linking puts
  a red node there, and every iteration of the fixup loop either moves the only violation
  (a red node with a red parent) two levels up by recoloring, or removes it by one or two
  rotations. The state of the loop is described by the subtree below \<open>z\<close> and the path above
  it. Every call of \<open>addStep\<close> is on a well-shaped state, so its snapshot returns.
\<close>

subsection \<open>Auxiliary facts\<close>

lemma rootcol_upd [simp]: "a \<notin> set (addrs s) \<Longrightarrow> rootcol (col(a := c)) s = rootcol col s"
  by (cases s) auto

lemma bhOf_upd [simp]: "a \<notin> set (addrs s) \<Longrightarrow> bhOf (col(a := c)) s = bhOf col s"
  by (induction s) auto

lemma rbsub_upd [simp]: "a \<notin> set (addrs s) \<Longrightarrow> rbsub (col(a := c)) s = rbsub col s"
  by (induction s) auto

lemma ctx_ok_upd [simp]:
  "a \<notin> set (ctx_addrs fs) \<Longrightarrow> ctx_ok (col(a := c)) fs c0 n = ctx_ok col fs c0 n"
  by (induction fs arbitrary: c0 n) auto

lemma ctx_rootcol_upd [simp]:
  "a \<notin> set (ctx_addrs fs) \<Longrightarrow> ctx_rootcol (col(a := c)) fs c0 = ctx_rootcol col fs c0"
  by (induction fs arbitrary: c0) auto

lemma plug_ok:
  "rbsub col s \<Longrightarrow> ctx_ok col fs (rootcol col s) (bhOf col s) \<Longrightarrow>
     rbsub col (plug fs s) \<and> rootcol col (plug fs s) = ctx_rootcol col fs (rootcol col s)"
proof (induction fs arbitrary: s)
  case Nil
  then show ?case by simp
next
  case (Cons f fs)
  obtain d a sib where f: "f = (d, a, sib)" by (cases f) auto
  show ?case
  proof (cases d)
    case DL
    have "rbsub col (Nd s a sib)" using Cons.prems f by auto
    moreover have "ctx_ok col fs (rootcol col (Nd s a sib)) (bhOf col (Nd s a sib))"
      using Cons.prems f by auto
    ultimately show ?thesis using Cons.IH[of "Nd s a sib"] f DL by simp
  next
    case DR
    have "rbsub col (Nd sib a s)" using Cons.prems f by auto
    moreover have "ctx_ok col fs (rootcol col (Nd sib a s)) (bhOf col (Nd sib a s))"
      using Cons.prems f by auto
    ultimately show ?thesis using Cons.IH[of "Nd sib a s"] f DR by simp
  qed
qed

lemma rbsub_noRedRed: "rbsub col s \<Longrightarrow> noRedRed col s"
  by (induction s) auto

lemma rbsub_pathBlacks: "rbsub col s \<Longrightarrow> list_all (\<lambda>n. n = bhOf col s) (pathBlacks col s)"
  by (induction s) (auto simp: list_all_iff)

lemma pathBlacks_nonempty: "pathBlacks col s \<noteq> []"
  by (induction s) auto

lemma rbsub_pathBlacks_hd:
  "rbsub col s \<Longrightarrow> list_all (\<lambda>n. n = hd (pathBlacks col s)) (pathBlacks col s)"
  using rbsub_pathBlacks[of col s] pathBlacks_nonempty[of col s]
  by (cases "pathBlacks col s") (auto simp: list_all_iff)

lemma tree_at_cong:
  "(\<And>k. k \<in> set (addrs s) \<Longrightarrow>
       Left (h1 k) = Left (h k) \<and> Right (h1 k) = Right (h k) \<and> Parent (h1 k) = Parent (h k))
   \<Longrightarrow> tree_at h1 nl par p s = tree_at h nl par p s"
  by (induction s arbitrary: par p) auto

lemma ctx_at_cong:
  "(\<And>k. k \<in> set (ctx_addrs fs) \<Longrightarrow>
       Left (h1 k) = Left (h k) \<and> Right (h1 k) = Right (h k) \<and> Parent (h1 k) = Parent (h k))
   \<Longrightarrow> ctx_at h1 nl rt fs p = ctx_at h nl rt fs p"
proof (induction fs arbitrary: p)
  case Nil
  then show ?case by simp
next
  case (Cons f fs)
  obtain d a sib where f: "f = (d, a, sib)" by (cases f) auto
  have sib: "tree_at h1 nl par q sib = tree_at h nl par q sib" for par q
    using Cons.prems f by (intro tree_at_cong) auto
  have a: "Left (h1 a) = Left (h a)" "Right (h1 a) = Right (h a)" "Parent (h1 a) = Parent (h a)"
    using Cons.prems[of a] f by auto
  have "ctx_at h1 nl rt fs (Ref a) = ctx_at h nl rt fs (Ref a)"
    using Cons.prems f by (intro Cons.IH) auto
  then show ?case using f sib a by (cases d) auto
qed

lemma tree_at_root_ptr: "tree_at h nl par p (Nd l a r) \<Longrightarrow> p = Ref a"
  by simp

lemma tree_at_ptr: "tree_at h nl par p s \<Longrightarrow> p = Ref (root_addr nl s)"
  by (cases s) auto

lemma ctx_parent_top: "ctx_parent nl fs = Ref (top_addr nl fs)"
  by (cases fs) auto

lemma root_addr_cases: "root_addr nl s = nl \<and> s = Lf \<or> root_addr nl s \<in> set (addrs s)"
  by (cases s) auto

lemma top_addr_cases: "top_addr nl fs = nl \<and> fs = [] \<or> top_addr nl fs \<in> set (ctx_addrs fs)"
  by (cases fs) auto

lemma tree_at_not_nil: "tree_at h nl par p s \<Longrightarrow> nl \<notin> set (addrs s)"
  by (induction s arbitrary: par p) auto

lemma ctx_at_not_nil: "ctx_at h nl rt fs p \<Longrightarrow> nl \<notin> set (ctx_addrs fs)"
proof (induction fs arbitrary: p)
  case Nil
  then show ?case by simp
next
  case (Cons f fs)
  obtain d a sib where f: "f = (d, a, sib)" by (cases f) auto
  show ?case using Cons f tree_at_not_nil by (cases d) auto
qed

lemma get_Ref [simp]:
  "getID t (Ref a) = Some (ID (cells t a))"
  "getValue t (Ref a) = Some (Value (cells t a))"
  "getColor t (Ref a) = Some (Color (cells t a))"
  "getLeft t (Ref a) = Some (Left (cells t a))"
  "getRight t (Ref a) = Some (Right (cells t a))"
  "getParent t (Ref a) = Some (Parent (cells t a))"
  by (simp_all add: getID_def getValue_def getColor_def getLeft_def getRight_def getParent_def)

lemma upd_same [simp]: "cells (upd t a f) a = f (cells t a)"
  by (simp add: upd_def)

lemma upd_other [simp]: "k \<noteq> a \<Longrightarrow> cells (upd t a f) k = cells t k"
  by (simp add: upd_def)

lemma upd_simps [simp]:
  "NIL (upd t a f) = NIL t" "Root (upd t a f) = Root t" "fresh (upd t a f) = fresh t"
  "nextID (upd t a f) = nextID t" "rbSteps (upd t a f) = rbSteps t"
  by (simp_all add: upd_def)

lemma set_upd:
  "setColor (Ref a) c t = Some (upd t a (\<lambda>n. n\<lparr>Color := c\<rparr>))"
  "setLeft (Ref a) v t = Some (upd t a (\<lambda>n. n\<lparr>Left := v\<rparr>))"
  "setRight (Ref a) v t = Some (upd t a (\<lambda>n. n\<lparr>Right := v\<rparr>))"
  "setParent (Ref a) v t = Some (upd t a (\<lambda>n. n\<lparr>Parent := v\<rparr>))"
  by (simp_all add: upd_def)

lemma pushStep_simps [simp]:
  "cells (pushStep s t) = cells t" "NIL (pushStep s t) = NIL t"
  "Root (pushStep s t) = Root t" "fresh (pushStep s t) = fresh t"
  "nextID (pushStep s t) = nextID t"
  "rbSteps (pushStep s t) = rbSteps t @ [s]"
  by (simp_all add: pushStep_def)

lemma Type_rbStep [simp]: "Type (rbStep ty d n hl snap) = ty"
  and TreeState_rbStep [simp]: "TreeState (rbStep ty d n hl snap) = snap"
  by (simp_all add: rbStep_def)

lemma root_upd_simps [simp]:
  "cells (t\<lparr>Root := r\<rparr>) = cells t"
  by simp

lemma bind_weak_cong: "x = y \<Longrightarrow> Option.bind x f = Option.bind y f"
  by simp

lemma rootcol_plug: "rootcol col (plug fs s) = ctx_rootcol col fs (rootcol col s)"
proof (induction fs arbitrary: s)
  case Nil
  then show ?case by simp
next
  case (Cons f fs)
  obtain d a sib where f: "f = (d, a, sib)" by (cases f) auto
  show ?case using Cons.IH f by (cases d) auto
qed

lemma rbsub_plug:
  "rbsub col (plug fs s) = (rbsub col s \<and> ctx_ok col fs (rootcol col s) (bhOf col s))"
proof (induction fs arbitrary: s)
  case Nil
  then show ?case by simp
next
  case (Cons f fs)
  obtain d a sib where f: "f = (d, a, sib)" by (cases f) auto
  show ?case
  proof (cases d)
    case DL
    then show ?thesis using Cons.IH[of "Nd s a sib"] f by auto
  next
    case DR
    then show ?thesis using Cons.IH[of "Nd sib a s"] f by auto
  qed
qed

lemma set_addrs_plug: "set (addrs (plug fs s)) = set (addrs s) \<union> set (ctx_addrs fs)"
proof (induction fs arbitrary: s)
  case Nil
  then show ?case by simp
next
  case (Cons f fs)
  obtain d a sib where f: "f = (d, a, sib)" by (cases f) auto
  show ?case using Cons.IH f by (cases d) auto
qed

lemma distinct_addrs_plug:
  "distinct (addrs (plug fs s)) = distinct (addrs s @ ctx_addrs fs)"
proof (induction fs arbitrary: s)
  case Nil
  then show ?case by simp
next
  case (Cons f fs)
  obtain d a sib where f: "f = (d, a, sib)" by (cases f) auto
  show ?case
  proof (cases d)
    case DL
    then show ?thesis using Cons.IH[of "Nd s a sib"] f by auto
  next
    case DR
    then show ?thesis using Cons.IH[of "Nd sib a s"] f by auto
  qed
qed

lemma tree_at_plug:
  "tree_at h nl (ctx_parent nl fs) p s \<Longrightarrow> ctx_at h nl rt fs p \<Longrightarrow>
     tree_at h nl (Ref nl) rt (plug fs s)"
proof (induction fs arbitrary: s p)
  case Nil
  then show ?case by simp
next
  case (Cons f fs)
  obtain d a sib where f: "f = (d, a, sib)" by (cases f) auto
  show ?case
  proof (cases d)
    case DL
    have "tree_at h nl (ctx_parent nl fs) (Ref a) (Nd s a sib)"
      using Cons.prems f DL by auto
    moreover have "ctx_at h nl rt fs (Ref a)" using Cons.prems f DL by auto
    ultimately show ?thesis using Cons.IH f DL by simp
  next
    case DR
    have "tree_at h nl (ctx_parent nl fs) (Ref a) (Nd sib a s)"
      using Cons.prems f DR by auto
    moreover have "ctx_at h nl rt fs (Ref a)" using Cons.prems f DR by auto
    ultimately show ?thesis using Cons.IH f DR by simp
  qed
qed

lemma ctx_ok_top_black:
  "ctx_ok col fs c n \<Longrightarrow> fs = [] \<or> col (top_addr nl fs) = Black \<Longrightarrow> ctx_ok col fs c1 n"
  by (cases fs) auto

lemma ctx_rootcol_nonempty: "fs \<noteq> [] \<Longrightarrow> ctx_rootcol col fs c = ctx_rootcol col fs c1"
  by (cases fs) auto

lemma linkID_Some: "\<exists>v. linkID t p = Some v"
  by (cases p) (auto simp: linkID_def)

lemma snapshot_Some:
  assumes "NIL t = Ref nl" "tree_at (cells t) nl par p s"
  shows "\<exists>snap. rb_inorderSnapshot t p depth xMin xMax = Some snap"
  using assms
proof (induction s arbitrary: par p depth xMin xMax)
  case Lf
  then show ?case by (subst rb_inorderSnapshot.simps) simp
next
  case (Nd l a r)
  have p: "p = Ref a" "a \<noteq> nl" using Nd.prems(2) by simp_all
  obtain v1 v2 v3 where v: "linkID t (Left (cells t a)) = Some v1"
    "linkID t (Right (cells t a)) = Some v2" "linkID t (Parent (cells t a)) = Some v3"
    using linkID_Some by meson
  obtain ls where ls: "rb_inorderSnapshot t (Left (cells t a)) (Suc depth) xMin
                         ((xMin + xMax) / 2) = Some ls"
    using Nd.IH(1)[OF Nd.prems(1)] Nd.prems(2) by fastforce
  obtain rs where rs: "rb_inorderSnapshot t (Right (cells t a)) (Suc depth)
                         ((xMin + xMax) / 2) xMax = Some rs"
    using Nd.IH(2)[OF Nd.prems(1)] Nd.prems(2) by fastforce
  show ?case
    by (subst rb_inorderSnapshot.simps) (simp add: p Nd.prems(1) v ls rs)
qed

lemma linkID_cong: "NIL t1 = NIL t \<Longrightarrow> cells t1 = cells t \<Longrightarrow> linkID t1 q = linkID t q"
  by (cases q) (simp_all add: linkID_def getID_def)

lemma snapshot_cong:
  assumes "NIL t1 = NIL t" "cells t1 = cells t" "NIL t = Ref nl" "tree_at (cells t) nl par p s"
  shows "rb_inorderSnapshot t1 p depth xMin xMax = rb_inorderSnapshot t p depth xMin xMax"
  using assms(4)
proof (induction s arbitrary: par p depth xMin xMax)
  case Lf
  then have p: "p = NIL t" using assms by simp
  show ?case unfolding p
    by (subst rb_inorderSnapshot.simps, subst (2) rb_inorderSnapshot.simps) (simp add: assms)
next
  case (Nd l a r)
  have p: "p = Ref a" "a \<noteq> nl" using Nd.prems by simp_all
  have l: "rb_inorderSnapshot t1 (Left (cells t a)) d x y
             = rb_inorderSnapshot t (Left (cells t a)) d x y" for d x y
    using Nd.IH(1)[of "Ref a" "Left (cells t a)"] Nd.prems by simp
  have r: "rb_inorderSnapshot t1 (Right (cells t a)) d x y
             = rb_inorderSnapshot t (Right (cells t a)) d x y" for d x y
    using Nd.IH(2)[of "Ref a" "Right (cells t a)"] Nd.prems by simp
  show ?case unfolding p
    by (subst rb_inorderSnapshot.simps, subst (2) rb_inorderSnapshot.simps)
       (simp add: assms(1,2) linkID_cong[OF assms(1,2)] l r)
qed

lemma wellShapedI: "NIL t = Ref nl \<Longrightarrow> tree_at (cells t) nl par (Root t) S \<Longrightarrow> wellShaped t"
  unfolding wellShaped_def by blast

lemma snapOf_eq: "wellShaped t \<Longrightarrow> rb_getTreeSnapshot t = Some (snapOf t)"
  unfolding wellShaped_def snapOf_def rb_getTreeSnapshot_def
  using snapshot_Some by fastforce

lemma addStep_eq:
  "wellShaped t \<Longrightarrow> rb_addStep ty d n hl t = Some (pushStep (rbStep ty d n hl (snapOf t)) t)"
  by (simp add: rb_addStep_def snapOf_eq)

lemma wellShaped_pushStep [simp]: "wellShaped (pushStep s t) = wellShaped t"
  by (simp add: wellShaped_def)

lemma wellShaped_color [simp]:
  "wellShaped (upd t a (\<lambda>n. n\<lparr>Color := c\<rparr>)) = wellShaped t"
proof -
  let ?t = "upd t a (\<lambda>n. n\<lparr>Color := c\<rparr>)"
  have l: "Left (cells ?t k) = Left (cells t k) \<and> Right (cells ?t k) = Right (cells t k)
           \<and> Parent (cells ?t k) = Parent (cells t k)" for k
    by (simp add: upd_def)
  have "tree_at (cells ?t) nl par p s = tree_at (cells t) nl par p s" for nl par p s
    using tree_at_cong[of s "cells ?t" "cells t" nl par p] l by simp
  then show ?thesis by (simp add: wellShaped_def)
qed

lemma snapshot_pushStep:
  "wellShaped t \<Longrightarrow> rb_getTreeSnapshot (pushStep s t) = rb_getTreeSnapshot t"
  unfolding wellShaped_def rb_getTreeSnapshot_def
  using snapshot_cong[of "pushStep s t" t] by fastforce

lemma snapOf_pushStep [simp]: "wellShaped t \<Longrightarrow> snapOf (pushStep s t) = snapOf t"
  by (simp add: snapOf_def snapshot_pushStep)

subsection \<open>The two rotations\<close>

lemma leftRotate_split:
  "rb_leftRotate x t = do {
     y \<leftarrow> getRight t x;
     t1 \<leftarrow> rb_leftRotateLinks x t;
     xv \<leftarrow> getValue t1 x;
     xid \<leftarrow> getID t1 x;
     yid \<leftarrow> getID t1 y;
     rb_addStep StepRotateLeft [ArgInt xv] (Some xid) [xid, yid] t1
   }"
  by (cases "getRight t x") (simp_all add: rb_leftRotate_def rb_leftRotateLinks_def)

lemma rightRotate_split:
  "rb_rightRotate y t = do {
     x \<leftarrow> getLeft t y;
     t1 \<leftarrow> rb_rightRotateLinks y t;
     yv \<leftarrow> getValue t1 y;
     yid \<leftarrow> getID t1 y;
     xid \<leftarrow> getID t1 x;
     rb_addStep StepRotateRight [ArgInt yv] (Some yid) [xid, yid] t1
   }"
  by (cases "getLeft t y") (simp_all add: rb_rightRotate_def rb_rightRotateLinks_def)

lemma leftRotate_cells:
  assumes "NIL t = Ref nl" "x \<noteq> y" "Right (cells t x) = Ref y" "Left (cells t y) = Ref rb"
    "Parent (cells t x) = Ref pa" "rb \<noteq> x" "rb \<noteq> y" "pa \<noteq> x" "pa \<noteq> y" "pa = nl \<or> rb \<noteq> pa"
  shows "\<exists>t1. rb_leftRotateLinks (Ref x) t = Some t1 \<and> rotL_effect t nl x y rb pa t1"
proof -
  have neq: "x \<noteq> rb" "y \<noteq> rb" "x \<noteq> pa" "y \<noteq> pa" "y \<noteq> x" using assms by auto
  note facts = assms(1-9) neq
  consider (a) "rb = nl" "pa = nl" | (b) "rb = nl" "pa \<noteq> nl" "Left (cells t pa) = Ref x"
    | (c) "rb = nl" "pa \<noteq> nl" "Left (cells t pa) \<noteq> Ref x"
    | (d) "rb \<noteq> nl" "pa = nl" | (e) "rb \<noteq> nl" "pa \<noteq> nl" "Left (cells t pa) = Ref x"
    | (f) "rb \<noteq> nl" "pa \<noteq> nl" "Left (cells t pa) \<noteq> Ref x"
    by blast
  then show ?thesis
  proof cases
    case a
    show ?thesis
      by (simp add: rb_leftRotateLinks_def set_upd rotL_effect_def facts a cong: bind_weak_cong)
  next
    case b
    then have "pa \<noteq> rb" by simp
    then show ?thesis
      by (simp add: rb_leftRotateLinks_def set_upd rotL_effect_def facts b cong: bind_weak_cong)
  next
    case c
    then have "pa \<noteq> rb" "Ref x \<noteq> Left (cells t pa)" by auto
    then show ?thesis
      by (simp add: rb_leftRotateLinks_def set_upd rotL_effect_def facts c cong: bind_weak_cong)
  next
    case d
    show ?thesis
      by (simp add: rb_leftRotateLinks_def set_upd rotL_effect_def facts d cong: bind_weak_cong)
  next
    case e
    then have "pa \<noteq> rb" "rb \<noteq> pa" using assms by auto
    then show ?thesis
      by (simp add: rb_leftRotateLinks_def set_upd rotL_effect_def facts e cong: bind_weak_cong)
  next
    case f
    then have "pa \<noteq> rb" "rb \<noteq> pa" "Ref x \<noteq> Left (cells t pa)" using assms by auto
    then show ?thesis
      by (simp add: rb_leftRotateLinks_def set_upd rotL_effect_def facts f cong: bind_weak_cong)
  qed
qed

lemma rotL_effect_data:
  assumes "rotL_effect t nl x y rb pa t1"
  shows "Color (cells t1 k) = Color (cells t k) \<and> Value (cells t1 k) = Value (cells t k)
         \<and> ID (cells t1 k) = ID (cells t k)"
proof -
  have cx: "cells t1 x = (cells t x)\<lparr>Right := Ref rb, Parent := Ref y\<rparr>"
    and cy: "cells t1 y = (cells t y)\<lparr>Parent := Ref pa, Left := Ref x\<rparr>"
    and crb: "rb \<noteq> nl \<longrightarrow> cells t1 rb = (cells t rb)\<lparr>Parent := Ref x\<rparr>"
    and cpa: "pa \<noteq> nl \<longrightarrow> cells t1 pa =
            (if Left (cells t pa) = Ref x then (cells t pa)\<lparr>Left := Ref y\<rparr>
             else (cells t pa)\<lparr>Right := Ref y\<rparr>)"
    and oth: "k \<noteq> x \<longrightarrow> k \<noteq> y \<longrightarrow> (k \<noteq> rb \<or> rb = nl) \<longrightarrow> (k \<noteq> pa \<or> pa = nl)
              \<longrightarrow> cells t1 k = cells t k"
    using assms unfolding rotL_effect_def by blast+
  consider "k = x" | "k = y" | "k = rb" "rb \<noteq> nl" | "k = pa" "pa \<noteq> nl"
    | "k \<noteq> x" "k \<noteq> y" "k \<noteq> rb \<or> rb = nl" "k \<noteq> pa \<or> pa = nl"
    by blast
  then show ?thesis
  proof cases
    case 1 then show ?thesis using cx by simp
  next
    case 2 then show ?thesis using cy by simp
  next
    case 3 then show ?thesis using crb by simp
  next
    case 4 then show ?thesis using cpa by (simp split: if_splits)
  next
    case 5 then show ?thesis using oth by simp
  qed
qed

lemma rotL_effect_keep:
  "rotL_effect t nl x y rb pa t1 \<Longrightarrow> k \<noteq> x \<Longrightarrow> k \<noteq> y \<Longrightarrow> k \<noteq> rb \<Longrightarrow> k \<noteq> pa \<Longrightarrow>
     cells t1 k = cells t k"
  unfolding rotL_effect_def by blast

lemma leftRotate_spec:
  assumes nil: "NIL t = Ref nl"
    and ctx: "ctx_at (cells t) nl (Root t) fs (Ref x)"
    and tr: "tree_at (cells t) nl (ctx_parent nl fs) (Ref x) (Nd a x (Nd b y c))"
    and dist: "distinct (addrs (Nd a x (Nd b y c)) @ ctx_addrs fs)"
  shows "\<exists>t1 snap. rb_leftRotate (Ref x) t = Some t1
           \<and> NIL t1 = NIL t \<and> fresh t1 = fresh t \<and> nextID t1 = nextID t
           \<and> (\<forall>k. Color (cells t1 k) = Color (cells t k)
                  \<and> Value (cells t1 k) = Value (cells t k)
                  \<and> ID (cells t1 k) = ID (cells t k))
           \<and> ctx_at (cells t1) nl (Root t1) fs (Ref y)
           \<and> tree_at (cells t1) nl (ctx_parent nl fs) (Ref y) (Nd (Nd a x b) y c)
           \<and> rbSteps t1 = rbSteps t @
                [rbStep StepRotateLeft [ArgInt (Value (cells t x))] (Some (ID (cells t x)))
                   [ID (cells t x), ID (cells t y)] snap]
           \<and> rb_getTreeSnapshot t1 = Some snap"
proof -
  let ?h = "cells t"
  define rb where "rb = root_addr nl b"
  define pa where "pa = top_addr nl fs"
  have xy: "x \<noteq> y" "x \<noteq> nl" "y \<noteq> nl" using tr dist by auto
  have fx: "Parent (?h x) = Ref pa" "Right (?h x) = Ref y" "Parent (?h y) = Ref x"
    using tr by (auto simp: pa_def ctx_parent_top)
  have ta: "tree_at ?h nl (Ref x) (Left (?h x)) a" and tb: "tree_at ?h nl (Ref y) (Left (?h y)) b"
    and tc: "tree_at ?h nl (Ref y) (Right (?h y)) c"
    using tr by auto
  have ly: "Left (?h y) = Ref rb" using tree_at_ptr[OF tb] by (simp add: rb_def)
  have rbc: "rb = nl \<and> b = Lf \<or> rb \<in> set (addrs b)"
    using root_addr_cases[of nl b] by (simp add: rb_def)
  have pac: "pa = nl \<and> fs = [] \<or> pa \<in> set (ctx_addrs fs)"
    using top_addr_cases[of nl fs] by (simp add: pa_def)
  have nnl: "nl \<notin> set (addrs a)" "nl \<notin> set (addrs b)" "nl \<notin> set (addrs c)"
    "nl \<notin> set (ctx_addrs fs)"
    using tree_at_not_nil[OF tr] ctx_at_not_nil[OF ctx] by auto
  have dA: "x \<notin> set (addrs a)" "y \<notin> set (addrs a)" "set (addrs a) \<inter> set (addrs b) = {}"
    "set (addrs a) \<inter> set (ctx_addrs fs) = {}"
    and dB: "x \<notin> set (addrs b)" "y \<notin> set (addrs b)" "set (addrs b) \<inter> set (ctx_addrs fs) = {}"
    and dC: "x \<notin> set (addrs c)" "y \<notin> set (addrs c)" "set (addrs c) \<inter> set (addrs b) = {}"
    "set (addrs c) \<inter> set (ctx_addrs fs) = {}"
    and dF: "x \<notin> set (ctx_addrs fs)" "y \<notin> set (ctx_addrs fs)"
    using dist by auto
  have d1: "rb \<noteq> x" "rb \<noteq> y" "pa \<noteq> x" "pa \<noteq> y" "pa = nl \<or> rb \<noteq> pa"
    using rbc pac xy dB dF nnl by auto
  obtain t1 where rot: "rb_leftRotateLinks (Ref x) t = Some t1"
    and eff: "rotL_effect t nl x y rb pa t1"
    using leftRotate_cells[OF nil xy(1) fx(2) ly fx(1) d1] by blast
  have same: "NIL t1 = NIL t" "fresh t1 = fresh t" "nextID t1 = nextID t"
    and st: "rbSteps t1 = rbSteps t"
    and rt: "Root t1 = (if pa = nl then Ref y else Root t)"
    and cx: "cells t1 x = (?h x)\<lparr>Right := Ref rb, Parent := Ref y\<rparr>"
    and cy: "cells t1 y = (?h y)\<lparr>Parent := Ref pa, Left := Ref x\<rparr>"
    and crb: "rb \<noteq> nl \<longrightarrow> cells t1 rb = (?h rb)\<lparr>Parent := Ref x\<rparr>"
    and cpa: "pa \<noteq> nl \<longrightarrow> cells t1 pa =
                 (if Left (?h pa) = Ref x then (?h pa)\<lparr>Left := Ref y\<rparr>
                  else (?h pa)\<lparr>Right := Ref y\<rparr>)"
    using eff unfolding rotL_effect_def by blast+
  note keep = rotL_effect_keep[OF eff]
  have keepA: "cells t1 k = ?h k" if "k \<in> set (addrs a)" for k
  proof (rule keep)
    show "k \<noteq> x" "k \<noteq> y" using that dA by auto
    show "k \<noteq> rb" using that rbc nnl dA by auto
    show "k \<noteq> pa" using that pac nnl dA by auto
  qed
  have keepC: "cells t1 k = ?h k" if "k \<in> set (addrs c)" for k
  proof (rule keep)
    show "k \<noteq> x" "k \<noteq> y" using that dC by auto
    show "k \<noteq> rb" using that rbc nnl dC by auto
    show "k \<noteq> pa" using that pac nnl dC by auto
  qed
  have keepB: "cells t1 k = ?h k" if "k \<in> set (addrs b)" "k \<noteq> rb" for k
  proof (rule keep)
    show "k \<noteq> x" "k \<noteq> y" using that dB by auto
    show "k \<noteq> rb" using that by simp
    show "k \<noteq> pa" using that pac nnl dB by auto
  qed
  have ta1: "tree_at (cells t1) nl (Ref x) (Left (?h x)) a"
    using ta tree_at_cong[of a "cells t1" ?h nl "Ref x" "Left (?h x)"] keepA by simp
  have tc1: "tree_at (cells t1) nl (Ref y) (Right (?h y)) c"
    using tc tree_at_cong[of c "cells t1" ?h nl "Ref y" "Right (?h y)"] keepC by simp
  have tb1: "tree_at (cells t1) nl (Ref x) (Ref rb) b"
  proof (cases b)
    case Lf
    then show ?thesis by (simp add: rb_def)
  next
    case (Nd bl r br)
    then have r: "r = rb" "rb \<noteq> nl" using nnl by (auto simp: rb_def)
    have tbl: "tree_at ?h nl (Ref rb) (Left (?h rb)) bl"
      and tbr: "tree_at ?h nl (Ref rb) (Right (?h rb)) br"
      using tb Nd r by auto
    have nin: "rb \<notin> set (addrs bl)" "rb \<notin> set (addrs br)" using dist Nd r by auto
    have kl: "cells t1 k = ?h k" if "k \<in> set (addrs bl)" for k
      using keepB[of k] that nin Nd by auto
    have kr: "cells t1 k = ?h k" if "k \<in> set (addrs br)" for k
      using keepB[of k] that nin Nd by auto
    have "tree_at (cells t1) nl (Ref rb) (Left (?h rb)) bl"
      using tbl tree_at_cong[of bl "cells t1" ?h nl "Ref rb" "Left (?h rb)"] kl by simp
    moreover have "tree_at (cells t1) nl (Ref rb) (Right (?h rb)) br"
      using tbr tree_at_cong[of br "cells t1" ?h nl "Ref rb" "Right (?h rb)"] kr by simp
    ultimately show ?thesis using Nd r crb by simp
  qed
  have tree: "tree_at (cells t1) nl (ctx_parent nl fs) (Ref y) (Nd (Nd a x b) y c)"
    using xy cx cy ta1 tb1 tc1 by (simp add: ctx_parent_top pa_def)
  have ctx1: "ctx_at (cells t1) nl (Root t1) fs (Ref y)"
  proof (cases fs)
    case Nil
    then show ?thesis using rt by (simp add: pa_def)
  next
    case (Cons f gs)
    obtain d p sib where f: "f = (d, p, sib)" by (cases f) auto
    have p: "p = pa" "pa \<noteq> nl" using Cons f nnl by (auto simp: pa_def)
    have rt1: "Root t1 = Root t" using rt p by simp
    have dG: "pa \<notin> set (ctx_addrs gs)" "pa \<notin> set (addrs sib)" using dist Cons f p by auto
    have keepF: "cells t1 k = ?h k" if "k \<in> set (ctx_addrs fs)" "k \<noteq> pa" for k
    proof (rule keep)
      show "k \<noteq> x" "k \<noteq> y" using that dF by auto
      show "k \<noteq> rb" using that rbc nnl dB by auto
      show "k \<noteq> pa" using that by simp
    qed
    have kg: "cells t1 k = ?h k" if "k \<in> set (ctx_addrs gs)" for k
      using keepF[of k] that dG Cons f by auto
    have ks: "cells t1 k = ?h k" if "k \<in> set (addrs sib)" for k
      using keepF[of k] that dG Cons f by auto
    have gs: "ctx_at (cells t1) nl (Root t) gs (Ref pa) = ctx_at ?h nl (Root t) gs (Ref pa)"
      using ctx_at_cong[of gs "cells t1" ?h nl "Root t" "Ref pa"] kg by simp
    have sibeq: "tree_at (cells t1) nl par q sib = tree_at ?h nl par q sib" for par q
      using tree_at_cong[of sib "cells t1" ?h nl par q] ks by simp
    show ?thesis
    proof (cases d)
      case DL
      then have "Left (?h pa) = Ref x" using ctx Cons f p by simp
      then show ?thesis using ctx Cons f p DL cpa rt1 gs sibeq by simp
    next
      case DR
      then have sib: "tree_at ?h nl (Ref pa) (Left (?h pa)) sib" using ctx Cons f p by simp
      have "x \<notin> set (addrs sib)" using dist Cons f by auto
      then have "root_addr nl sib \<noteq> x"
        using root_addr_cases[of nl sib] xy by auto
      then have "Left (?h pa) \<noteq> Ref x" using tree_at_ptr[OF sib] by simp
      then show ?thesis using ctx Cons f p DR cpa rt1 gs sibeq by simp
    qed
  qed
  note data = rotL_effect_data[OF eff]
  have ws: "wellShaped t1"
    using wellShapedI[OF _ tree_at_plug[OF tree ctx1]] same nil by simp
  let ?s = "rbStep StepRotateLeft [ArgInt (Value (cells t x))] (Some (ID (cells t x)))
              [ID (cells t x), ID (cells t y)] (snapOf t1)"
  have run: "rb_leftRotate (Ref x) t = Some (pushStep ?s t1)"
    by (simp add: leftRotate_split fx(2) rot addStep_eq[OF ws] data cong: bind_weak_cong)
  have snap: "rb_getTreeSnapshot (pushStep ?s t1) = Some (snapOf t1)"
    by (simp add: snapshot_pushStep[OF ws] snapOf_eq[OF ws])
  show ?thesis
    using run snap same st tree ctx1 data
    by (intro exI[of _ "pushStep ?s t1"] exI[of _ "snapOf t1"]) simp
qed

lemma rightRotate_cells:
  assumes "NIL t = Ref nl" "x \<noteq> y" "Left (cells t y) = Ref x" "Right (cells t x) = Ref rb"
    "Parent (cells t y) = Ref pa" "rb \<noteq> x" "rb \<noteq> y" "pa \<noteq> x" "pa \<noteq> y" "pa = nl \<or> rb \<noteq> pa"
  shows "\<exists>t1. rb_rightRotateLinks (Ref y) t = Some t1 \<and> rotR_effect t nl y x rb pa t1"
proof -
  have neq: "x \<noteq> rb" "y \<noteq> rb" "x \<noteq> pa" "y \<noteq> pa" "y \<noteq> x" using assms by auto
  note facts = assms(1-9) neq
  consider (a) "rb = nl" "pa = nl" | (b) "rb = nl" "pa \<noteq> nl" "Left (cells t pa) = Ref y"
    | (c) "rb = nl" "pa \<noteq> nl" "Left (cells t pa) \<noteq> Ref y"
    | (d) "rb \<noteq> nl" "pa = nl" | (e) "rb \<noteq> nl" "pa \<noteq> nl" "Left (cells t pa) = Ref y"
    | (f) "rb \<noteq> nl" "pa \<noteq> nl" "Left (cells t pa) \<noteq> Ref y"
    by blast
  then show ?thesis
  proof cases
    case a
    show ?thesis
      by (simp add: rb_rightRotateLinks_def set_upd rotR_effect_def facts a cong: bind_weak_cong)
  next
    case b
    then have "pa \<noteq> rb" by simp
    then show ?thesis
      by (simp add: rb_rightRotateLinks_def set_upd rotR_effect_def facts b cong: bind_weak_cong)
  next
    case c
    then have "pa \<noteq> rb" "Ref y \<noteq> Left (cells t pa)" by auto
    then show ?thesis
      by (simp add: rb_rightRotateLinks_def set_upd rotR_effect_def facts c cong: bind_weak_cong)
  next
    case d
    show ?thesis
      by (simp add: rb_rightRotateLinks_def set_upd rotR_effect_def facts d cong: bind_weak_cong)
  next
    case e
    then have "pa \<noteq> rb" "rb \<noteq> pa" using assms by auto
    then show ?thesis
      by (simp add: rb_rightRotateLinks_def set_upd rotR_effect_def facts e cong: bind_weak_cong)
  next
    case f
    then have "pa \<noteq> rb" "rb \<noteq> pa" "Ref y \<noteq> Left (cells t pa)" using assms by auto
    then show ?thesis
      by (simp add: rb_rightRotateLinks_def set_upd rotR_effect_def facts f cong: bind_weak_cong)
  qed
qed

lemma rotR_effect_data:
  assumes "rotR_effect t nl y x rb pa t1"
  shows "Color (cells t1 k) = Color (cells t k) \<and> Value (cells t1 k) = Value (cells t k)
         \<and> ID (cells t1 k) = ID (cells t k)"
proof -
  have cy: "cells t1 y = (cells t y)\<lparr>Left := Ref rb, Parent := Ref x\<rparr>"
    and cx: "cells t1 x = (cells t x)\<lparr>Parent := Ref pa, Right := Ref y\<rparr>"
    and crb: "rb \<noteq> nl \<longrightarrow> cells t1 rb = (cells t rb)\<lparr>Parent := Ref y\<rparr>"
    and cpa: "pa \<noteq> nl \<longrightarrow> cells t1 pa =
            (if Left (cells t pa) = Ref y then (cells t pa)\<lparr>Left := Ref x\<rparr>
             else (cells t pa)\<lparr>Right := Ref x\<rparr>)"
    and oth: "k \<noteq> x \<longrightarrow> k \<noteq> y \<longrightarrow> (k \<noteq> rb \<or> rb = nl) \<longrightarrow> (k \<noteq> pa \<or> pa = nl)
              \<longrightarrow> cells t1 k = cells t k"
    using assms unfolding rotR_effect_def by blast+
  consider "k = x" | "k = y" | "k = rb" "rb \<noteq> nl" | "k = pa" "pa \<noteq> nl"
    | "k \<noteq> x" "k \<noteq> y" "k \<noteq> rb \<or> rb = nl" "k \<noteq> pa \<or> pa = nl"
    by blast
  then show ?thesis
  proof cases
    case 1 then show ?thesis using cx by simp
  next
    case 2 then show ?thesis using cy by simp
  next
    case 3 then show ?thesis using crb by simp
  next
    case 4 then show ?thesis using cpa by (simp split: if_splits)
  next
    case 5 then show ?thesis using oth by simp
  qed
qed

lemma rotR_effect_keep:
  "rotR_effect t nl y x rb pa t1 \<Longrightarrow> k \<noteq> x \<Longrightarrow> k \<noteq> y \<Longrightarrow> k \<noteq> rb \<Longrightarrow> k \<noteq> pa \<Longrightarrow>
     cells t1 k = cells t k"
  unfolding rotR_effect_def by blast

lemma rightRotate_spec:
  assumes nil: "NIL t = Ref nl"
    and ctx: "ctx_at (cells t) nl (Root t) fs (Ref y)"
    and tr: "tree_at (cells t) nl (ctx_parent nl fs) (Ref y) (Nd (Nd a x b) y c)"
    and dist: "distinct (addrs (Nd (Nd a x b) y c) @ ctx_addrs fs)"
  shows "\<exists>t1 snap. rb_rightRotate (Ref y) t = Some t1
           \<and> NIL t1 = NIL t \<and> fresh t1 = fresh t \<and> nextID t1 = nextID t
           \<and> (\<forall>k. Color (cells t1 k) = Color (cells t k)
                  \<and> Value (cells t1 k) = Value (cells t k)
                  \<and> ID (cells t1 k) = ID (cells t k))
           \<and> ctx_at (cells t1) nl (Root t1) fs (Ref x)
           \<and> tree_at (cells t1) nl (ctx_parent nl fs) (Ref x) (Nd a x (Nd b y c))
           \<and> rbSteps t1 = rbSteps t @
                [rbStep StepRotateRight [ArgInt (Value (cells t y))] (Some (ID (cells t y)))
                   [ID (cells t x), ID (cells t y)] snap]
           \<and> rb_getTreeSnapshot t1 = Some snap"
proof -
  let ?h = "cells t"
  define rb where "rb = root_addr nl b"
  define pa where "pa = top_addr nl fs"
  have xy: "x \<noteq> y" "x \<noteq> nl" "y \<noteq> nl" using tr dist by auto
  have fx: "Parent (?h y) = Ref pa" "Left (?h y) = Ref x" "Parent (?h x) = Ref y"
    using tr by (auto simp: pa_def ctx_parent_top)
  have ta: "tree_at ?h nl (Ref x) (Left (?h x)) a" and tb: "tree_at ?h nl (Ref x) (Right (?h x)) b"
    and tc: "tree_at ?h nl (Ref y) (Right (?h y)) c"
    using tr by auto
  have rx: "Right (?h x) = Ref rb" using tree_at_ptr[OF tb] by (simp add: rb_def)
  have rbc: "rb = nl \<and> b = Lf \<or> rb \<in> set (addrs b)"
    using root_addr_cases[of nl b] by (simp add: rb_def)
  have pac: "pa = nl \<and> fs = [] \<or> pa \<in> set (ctx_addrs fs)"
    using top_addr_cases[of nl fs] by (simp add: pa_def)
  have nnl: "nl \<notin> set (addrs a)" "nl \<notin> set (addrs b)" "nl \<notin> set (addrs c)"
    "nl \<notin> set (ctx_addrs fs)"
    using tree_at_not_nil[OF tr] ctx_at_not_nil[OF ctx] by auto
  have dA: "x \<notin> set (addrs a)" "y \<notin> set (addrs a)" "set (addrs a) \<inter> set (addrs b) = {}"
    "set (addrs a) \<inter> set (ctx_addrs fs) = {}"
    and dB: "x \<notin> set (addrs b)" "y \<notin> set (addrs b)" "set (addrs b) \<inter> set (ctx_addrs fs) = {}"
    and dC: "x \<notin> set (addrs c)" "y \<notin> set (addrs c)" "set (addrs c) \<inter> set (addrs b) = {}"
    "set (addrs c) \<inter> set (ctx_addrs fs) = {}"
    and dF: "x \<notin> set (ctx_addrs fs)" "y \<notin> set (ctx_addrs fs)"
    using dist by auto
  have d1: "rb \<noteq> x" "rb \<noteq> y" "pa \<noteq> x" "pa \<noteq> y" "pa = nl \<or> rb \<noteq> pa"
    using rbc pac xy dB dF nnl by auto
  obtain t1 where rot: "rb_rightRotateLinks (Ref y) t = Some t1"
    and eff: "rotR_effect t nl y x rb pa t1"
    using rightRotate_cells[OF nil xy(1) fx(2) rx fx(1) d1] by blast
  have same: "NIL t1 = NIL t" "fresh t1 = fresh t" "nextID t1 = nextID t"
    and st: "rbSteps t1 = rbSteps t"
    and rt: "Root t1 = (if pa = nl then Ref x else Root t)"
    and cy: "cells t1 y = (?h y)\<lparr>Left := Ref rb, Parent := Ref x\<rparr>"
    and cx: "cells t1 x = (?h x)\<lparr>Parent := Ref pa, Right := Ref y\<rparr>"
    and crb: "rb \<noteq> nl \<longrightarrow> cells t1 rb = (?h rb)\<lparr>Parent := Ref y\<rparr>"
    and cpa: "pa \<noteq> nl \<longrightarrow> cells t1 pa =
                 (if Left (?h pa) = Ref y then (?h pa)\<lparr>Left := Ref x\<rparr>
                  else (?h pa)\<lparr>Right := Ref x\<rparr>)"
    using eff unfolding rotR_effect_def by blast+
  note keep = rotR_effect_keep[OF eff]
  have keepA: "cells t1 k = ?h k" if "k \<in> set (addrs a)" for k
  proof (rule keep)
    show "k \<noteq> x" "k \<noteq> y" using that dA by auto
    show "k \<noteq> rb" using that rbc nnl dA by auto
    show "k \<noteq> pa" using that pac nnl dA by auto
  qed
  have keepC: "cells t1 k = ?h k" if "k \<in> set (addrs c)" for k
  proof (rule keep)
    show "k \<noteq> x" "k \<noteq> y" using that dC by auto
    show "k \<noteq> rb" using that rbc nnl dC by auto
    show "k \<noteq> pa" using that pac nnl dC by auto
  qed
  have keepB: "cells t1 k = ?h k" if "k \<in> set (addrs b)" "k \<noteq> rb" for k
  proof (rule keep)
    show "k \<noteq> x" "k \<noteq> y" using that dB by auto
    show "k \<noteq> rb" using that by simp
    show "k \<noteq> pa" using that pac nnl dB by auto
  qed
  have ta1: "tree_at (cells t1) nl (Ref x) (Left (?h x)) a"
    using ta tree_at_cong[of a "cells t1" ?h nl "Ref x" "Left (?h x)"] keepA by simp
  have tc1: "tree_at (cells t1) nl (Ref y) (Right (?h y)) c"
    using tc tree_at_cong[of c "cells t1" ?h nl "Ref y" "Right (?h y)"] keepC by simp
  have tb1: "tree_at (cells t1) nl (Ref y) (Ref rb) b"
  proof (cases b)
    case Lf
    then show ?thesis by (simp add: rb_def)
  next
    case (Nd bl r br)
    then have r: "r = rb" "rb \<noteq> nl" using nnl by (auto simp: rb_def)
    have tbl: "tree_at ?h nl (Ref rb) (Left (?h rb)) bl"
      and tbr: "tree_at ?h nl (Ref rb) (Right (?h rb)) br"
      using tb Nd r by auto
    have nin: "rb \<notin> set (addrs bl)" "rb \<notin> set (addrs br)" using dist Nd r by auto
    have kl: "cells t1 k = ?h k" if "k \<in> set (addrs bl)" for k
      using keepB[of k] that nin Nd by auto
    have kr: "cells t1 k = ?h k" if "k \<in> set (addrs br)" for k
      using keepB[of k] that nin Nd by auto
    have "tree_at (cells t1) nl (Ref rb) (Left (?h rb)) bl"
      using tbl tree_at_cong[of bl "cells t1" ?h nl "Ref rb" "Left (?h rb)"] kl by simp
    moreover have "tree_at (cells t1) nl (Ref rb) (Right (?h rb)) br"
      using tbr tree_at_cong[of br "cells t1" ?h nl "Ref rb" "Right (?h rb)"] kr by simp
    ultimately show ?thesis using Nd r crb by simp
  qed
  have tree: "tree_at (cells t1) nl (ctx_parent nl fs) (Ref x) (Nd a x (Nd b y c))"
    using xy cx cy ta1 tb1 tc1 by (simp add: ctx_parent_top pa_def)
  have ctx1: "ctx_at (cells t1) nl (Root t1) fs (Ref x)"
  proof (cases fs)
    case Nil
    then show ?thesis using rt by (simp add: pa_def)
  next
    case (Cons f gs)
    obtain d p sib where f: "f = (d, p, sib)" by (cases f) auto
    have p: "p = pa" "pa \<noteq> nl" using Cons f nnl by (auto simp: pa_def)
    have rt1: "Root t1 = Root t" using rt p by simp
    have dG: "pa \<notin> set (ctx_addrs gs)" "pa \<notin> set (addrs sib)" using dist Cons f p by auto
    have keepF: "cells t1 k = ?h k" if "k \<in> set (ctx_addrs fs)" "k \<noteq> pa" for k
    proof (rule keep)
      show "k \<noteq> x" "k \<noteq> y" using that dF by auto
      show "k \<noteq> rb" using that rbc nnl dB by auto
      show "k \<noteq> pa" using that by simp
    qed
    have kg: "cells t1 k = ?h k" if "k \<in> set (ctx_addrs gs)" for k
      using keepF[of k] that dG Cons f by auto
    have ks: "cells t1 k = ?h k" if "k \<in> set (addrs sib)" for k
      using keepF[of k] that dG Cons f by auto
    have gs: "ctx_at (cells t1) nl (Root t) gs (Ref pa) = ctx_at ?h nl (Root t) gs (Ref pa)"
      using ctx_at_cong[of gs "cells t1" ?h nl "Root t" "Ref pa"] kg by simp
    have sibeq: "tree_at (cells t1) nl par q sib = tree_at ?h nl par q sib" for par q
      using tree_at_cong[of sib "cells t1" ?h nl par q] ks by simp
    show ?thesis
    proof (cases d)
      case DL
      then have "Left (?h pa) = Ref y" using ctx Cons f p by simp
      then show ?thesis using ctx Cons f p DL cpa rt1 gs sibeq by simp
    next
      case DR
      then have sib: "tree_at ?h nl (Ref pa) (Left (?h pa)) sib" using ctx Cons f p by simp
      have "y \<notin> set (addrs sib)" using dist Cons f by auto
      then have "root_addr nl sib \<noteq> y"
        using root_addr_cases[of nl sib] xy by auto
      then have "Left (?h pa) \<noteq> Ref y" using tree_at_ptr[OF sib] by simp
      then show ?thesis using ctx Cons f p DR cpa rt1 gs sibeq by simp
    qed
  qed
  note data = rotR_effect_data[OF eff]
  have ws: "wellShaped t1"
    using wellShapedI[OF _ tree_at_plug[OF tree ctx1]] same nil by simp
  let ?s = "rbStep StepRotateRight [ArgInt (Value (cells t y))] (Some (ID (cells t y)))
              [ID (cells t x), ID (cells t y)] (snapOf t1)"
  have run: "rb_rightRotate (Ref y) t = Some (pushStep ?s t1)"
    by (simp add: rightRotate_split fx(2) rot addStep_eq[OF ws] data cong: bind_weak_cong)
  have snap: "rb_getTreeSnapshot (pushStep ?s t1) = Some (snapOf t1)"
    by (simp add: snapshot_pushStep[OF ws] snapOf_eq[OF ws])
  show ?thesis
    using run snap same st tree ctx1 data
    by (intro exI[of _ "pushStep ?s t1"] exI[of _ "snapOf t1"]) simp
qed

subsection \<open>The links during the fixup\<close>

lemma sameData_refl [simp]: "sameData t t"
  by (simp add: sameData_def)

lemma sameData_trans: "sameData t t1 \<Longrightarrow> sameData t1 t2 \<Longrightarrow> sameData t t2"
  by (simp add: sameData_def)

lemma sameData_pushStep [simp]: "sameData t (pushStep st t)"
  by (simp add: sameData_def)

lemma sameData_color [simp]: "sameData t (upd t a (\<lambda>n. n\<lparr>Color := c\<rparr>))"
  by (simp add: sameData_def upd_def)

lemma colorOf_pushStep [simp]: "colorOf (pushStep st t) = colorOf t"
  by (simp add: colorOf_def)

lemma colorOf_upd [simp]: "colorOf (upd t a (\<lambda>n. n\<lparr>Color := c\<rparr>)) = (colorOf t)(a := c)"
  by (auto simp: colorOf_def upd_def)

lemma shapeInv_pushStep [simp]: "shapeInv (pushStep st t) nl fs s = shapeInv t nl fs s"
  by (simp add: shapeInv_def)

lemma shapeInv_color [simp]:
  "shapeInv (upd t a (\<lambda>n. n\<lparr>Color := c\<rparr>)) nl fs s = shapeInv t nl fs s"
proof -
  let ?t = "upd t a (\<lambda>n. n\<lparr>Color := c\<rparr>)"
  have l: "Left (cells ?t k) = Left (cells t k) \<and> Right (cells ?t k) = Right (cells t k)
           \<and> Parent (cells ?t k) = Parent (cells t k)" for k
    by (simp add: upd_def)
  have "tree_at (cells ?t) nl par p s = tree_at (cells t) nl par p s" for par p
    using tree_at_cong[of s "cells ?t" "cells t" nl par p] l by simp
  moreover have "ctx_at (cells ?t) nl rt fs p = ctx_at (cells t) nl rt fs p" for rt p
    using ctx_at_cong[of fs "cells ?t" "cells t" nl rt p] l by simp
  ultimately show ?thesis by (simp add: shapeInv_def)
qed

lemma shapeInv_zip:
  assumes "shapeInv t nl (f # fs) s"
  shows "shapeInv t nl fs (plug [f] s)"
proof -
  obtain d a sib where f: "f = (d, a, sib)" by (cases f) auto
  show ?thesis
  proof (cases d)
    case DL
    then show ?thesis using assms f unfolding shapeInv_def by auto
  next
    case DR
    then show ?thesis using assms f unfolding shapeInv_def by auto
  qed
qed

lemma shapeInv_unzipL:
  assumes "shapeInv t nl fs (Nd l a r)"
  shows "shapeInv t nl ((DL, a, r) # fs) l"
proof -
  have "tree_at (cells t) nl (Ref a) (Left (cells t a)) l"
    using assms unfolding shapeInv_def by simp
  from tree_at_ptr[OF this] show ?thesis
    using assms unfolding shapeInv_def by auto
qed

lemma shapeInv_unzipR:
  assumes "shapeInv t nl fs (Nd l a r)"
  shows "shapeInv t nl ((DR, a, l) # fs) r"
proof -
  have "tree_at (cells t) nl (Ref a) (Right (cells t a)) r"
    using assms unfolding shapeInv_def by simp
  from tree_at_ptr[OF this] show ?thesis
    using assms unfolding shapeInv_def by auto
qed

lemma shapeInv_leftRotate:
  assumes "shapeInv t nl fs (Nd a x (Nd b y c))"
  shows "\<exists>t1. rb_leftRotate (Ref x) t = Some t1 \<and> shapeInv t1 nl fs (Nd (Nd a x b) y c)
           \<and> sameData t t1 \<and> colorOf t1 = colorOf t
           \<and> (\<exists>st. rbSteps t1 = rbSteps t @ [st] \<and> Type st = StepRotateLeft
                  \<and> rb_getTreeSnapshot t1 = Some (TreeState st))"
proof -
  have nil: "NIL t = Ref nl"
    and ctx: "ctx_at (cells t) nl (Root t) fs (Ref x)"
    and tr: "tree_at (cells t) nl (ctx_parent nl fs) (Ref x) (Nd a x (Nd b y c))"
    and dist: "distinct (addrs (Nd a x (Nd b y c)) @ ctx_addrs fs)"
    using assms unfolding shapeInv_def by simp_all
  obtain t1 where rot: "rb_leftRotate (Ref x) t = Some t1"
    and same: "NIL t1 = NIL t" "fresh t1 = fresh t" "nextID t1 = nextID t"
    and data: "\<forall>k. Color (cells t1 k) = Color (cells t k)
                  \<and> Value (cells t1 k) = Value (cells t k)
                  \<and> ID (cells t1 k) = ID (cells t k)"
    and ctx1: "ctx_at (cells t1) nl (Root t1) fs (Ref y)"
    and tr1: "tree_at (cells t1) nl (ctx_parent nl fs) (Ref y) (Nd (Nd a x b) y c)"
    and stp: "\<exists>st. rbSteps t1 = rbSteps t @ [st] \<and> Type st = StepRotateLeft
                  \<and> rb_getTreeSnapshot t1 = Some (TreeState st)"
    using leftRotate_spec[OF nil ctx tr dist] by (elim exE conjE) (rule that, auto)
  have "distinct (addrs (Nd (Nd a x b) y c) @ ctx_addrs fs)" using dist by auto
  then have "shapeInv t1 nl fs (Nd (Nd a x b) y c)"
    using same nil ctx1 tr1 unfolding shapeInv_def by simp
  moreover have "sameData t t1" using same data by (simp add: sameData_def)
  moreover have "colorOf t1 = colorOf t" using data by (simp add: colorOf_def)
  ultimately show ?thesis using rot stp by blast
qed

lemma shapeInv_rightRotate:
  assumes "shapeInv t nl fs (Nd (Nd a x b) y c)"
  shows "\<exists>t1. rb_rightRotate (Ref y) t = Some t1 \<and> shapeInv t1 nl fs (Nd a x (Nd b y c))
           \<and> sameData t t1 \<and> colorOf t1 = colorOf t
           \<and> (\<exists>st. rbSteps t1 = rbSteps t @ [st] \<and> Type st = StepRotateRight
                  \<and> rb_getTreeSnapshot t1 = Some (TreeState st))"
proof -
  have nil: "NIL t = Ref nl"
    and ctx: "ctx_at (cells t) nl (Root t) fs (Ref y)"
    and tr: "tree_at (cells t) nl (ctx_parent nl fs) (Ref y) (Nd (Nd a x b) y c)"
    and dist: "distinct (addrs (Nd (Nd a x b) y c) @ ctx_addrs fs)"
    using assms unfolding shapeInv_def by simp_all
  obtain t1 where rot: "rb_rightRotate (Ref y) t = Some t1"
    and same: "NIL t1 = NIL t" "fresh t1 = fresh t" "nextID t1 = nextID t"
    and data: "\<forall>k. Color (cells t1 k) = Color (cells t k)
                  \<and> Value (cells t1 k) = Value (cells t k)
                  \<and> ID (cells t1 k) = ID (cells t k)"
    and ctx1: "ctx_at (cells t1) nl (Root t1) fs (Ref x)"
    and tr1: "tree_at (cells t1) nl (ctx_parent nl fs) (Ref x) (Nd a x (Nd b y c))"
    and stp: "\<exists>st. rbSteps t1 = rbSteps t @ [st] \<and> Type st = StepRotateRight
                  \<and> rb_getTreeSnapshot t1 = Some (TreeState st)"
    using rightRotate_spec[OF nil ctx tr dist] by (elim exE conjE) (rule that, auto)
  have "distinct (addrs (Nd a x (Nd b y c)) @ ctx_addrs fs)" using dist by auto
  then have "shapeInv t1 nl fs (Nd a x (Nd b y c))"
    using same nil ctx1 tr1 unfolding shapeInv_def by simp
  moreover have "sameData t t1" using same data by (simp add: sameData_def)
  moreover have "colorOf t1 = colorOf t" using data by (simp add: colorOf_def)
  ultimately show ?thesis using rot stp by blast
qed

text \<open>The links around a position with a parent and a grandparent.\<close>

lemma shapeInv_links:
  assumes "shapeInv t nl ((d1, p, s) # (d2, g, u) # fs) (Nd l z r)"
  shows "NIL t = Ref nl" "z \<noteq> nl" "p \<noteq> nl" "g \<noteq> nl" "z \<noteq> p" "z \<noteq> g" "p \<noteq> g"
    "Parent (cells t z) = Ref p" "Parent (cells t p) = Ref g"
    "Left (cells t g) = (if d2 = DL then Ref p else Ref (root_addr nl u))"
    "Right (cells t g) = (if d2 = DL then Ref (root_addr nl u) else Ref p)"
    "Left (cells t p) = (if d1 = DL then Ref z else Ref (root_addr nl s))"
    "Right (cells t p) = (if d1 = DL then Ref (root_addr nl s) else Ref z)"
    "root_addr nl u \<noteq> p" "root_addr nl u \<noteq> g" "root_addr nl u \<noteq> z"
    "root_addr nl s \<noteq> z" "root_addr nl s \<noteq> p" "root_addr nl s \<noteq> g"
proof -
  have nil: "NIL t = Ref nl"
    and ctx: "ctx_at (cells t) nl (Root t) ((d1, p, s) # (d2, g, u) # fs) (Ref z)"
    and tr: "tree_at (cells t) nl (Ref p) (Ref z) (Nd l z r)"
    and dist: "distinct (addrs (Nd l z r) @ ctx_addrs ((d1, p, s) # (d2, g, u) # fs))"
    using assms unfolding shapeInv_def by simp_all
  show "NIL t = Ref nl" by fact
  show z: "z \<noteq> nl" "Parent (cells t z) = Ref p" using tr by auto
  have cp: "p \<noteq> nl" "Parent (cells t p) = Ref g"
    "ctx_at (cells t) nl (Root t) ((d2, g, u) # fs) (Ref p)"
    using ctx by (cases d1; auto)+
  show "p \<noteq> nl" "Parent (cells t p) = Ref g" using cp by auto
  show g: "g \<noteq> nl" using cp(3) by (cases d2) auto
  show "z \<noteq> p" "z \<noteq> g" "p \<noteq> g" using dist by auto
  have ts: "tree_at (cells t) nl (Ref p) (if d1 = DL then Right (cells t p) else Left (cells t p)) s"
    using ctx by (cases d1) auto
  have tu: "tree_at (cells t) nl (Ref g) (if d2 = DL then Right (cells t g) else Left (cells t g)) u"
    using cp(3) by (cases d2) auto
  show "Left (cells t g) = (if d2 = DL then Ref p else Ref (root_addr nl u))"
    "Right (cells t g) = (if d2 = DL then Ref (root_addr nl u) else Ref p)"
    using cp(3) tree_at_ptr[OF tu] by (cases d2; auto)+
  show "Left (cells t p) = (if d1 = DL then Ref z else Ref (root_addr nl s))"
    "Right (cells t p) = (if d1 = DL then Ref (root_addr nl s) else Ref z)"
    using ctx tree_at_ptr[OF ts] by (cases d1; auto)+
  have "z \<notin> set (addrs u)" "p \<notin> set (addrs u)" "g \<notin> set (addrs u)"
    "z \<notin> set (addrs s)" "p \<notin> set (addrs s)" "g \<notin> set (addrs s)"
    using dist by auto
  then show "root_addr nl u \<noteq> p" "root_addr nl u \<noteq> g" "root_addr nl u \<noteq> z"
    "root_addr nl s \<noteq> z" "root_addr nl s \<noteq> p" "root_addr nl s \<noteq> g"
    using root_addr_cases[of nl u] root_addr_cases[of nl s] z(1) cp(1) g by auto
qed

lemma shapeInv_tree:
  assumes "shapeInv t nl fs s"
  shows "NIL t = Ref nl" "tree_at (cells t) nl (Ref nl) (Root t) (plug fs s)"
    "distinct (addrs (plug fs s))"
  using assms tree_at_plug unfolding shapeInv_def by (auto simp: distinct_addrs_plug)

lemma shapeInv_wellShaped: "shapeInv t nl fs s \<Longrightarrow> wellShaped t"
  using shapeInv_tree(1,2) wellShapedI by blast

subsection \<open>The colors in the cases of the fixup\<close>

lemma colInv_parent_red:
  assumes "colInv col ((d1, p, s) # fs1) hole" "col p = Red"
  shows "\<exists>d2 g u fs. fs1 = (d2, g, u) # fs"
  using assms by (cases fs1) (auto simp: colInv_def)

lemma colInv_facts:
  assumes "colInv col ((d1, p, s) # (d2, g, u) # fs) hole" "col p = Red"
  shows "col g = Black" "rootcol col s = Black" "bhOf col s = bhOf col hole" "rbsub col s"
    "rbsub col u" "bhOf col u = bhOf col hole" "ctx_ok col fs Black (Suc (bhOf col hole))"
    "ctx_rootcol col fs Black = Black" "rbsub col hole" "rootcol col hole = Red" "hole \<noteq> Lf"
  using assms by (auto simp: colInv_def)

lemma case1_colors:
  assumes inv: "colInv col ((d1, p, s) # (d2, g, u) # fs) hole" and pr: "col p = Red"
    and u: "u = Nd ul ua ur" and ur: "col ua = Red"
    and dist: "distinct (addrs hole @ ctx_addrs ((d1, p, s) # (d2, g, u) # fs))"
  shows "colInv (col(p := Black, ua := Black, g := Red)) fs
           (plug [(d2, g, u)] (plug [(d1, p, s)] hole))"
proof -
  let ?c = "col(p := Black, ua := Black, g := Red)"
  note f = colInv_facts[OF inv pr]
  have ne: "p \<noteq> ua" "p \<noteq> g" "ua \<noteq> g" using dist u by auto
  have out_hole: "p \<notin> set (addrs hole)" "ua \<notin> set (addrs hole)" "g \<notin> set (addrs hole)"
    and out_s: "p \<notin> set (addrs s)" "ua \<notin> set (addrs s)" "g \<notin> set (addrs s)"
    and out_ul: "p \<notin> set (addrs ul)" "ua \<notin> set (addrs ul)" "g \<notin> set (addrs ul)"
    and out_ur: "p \<notin> set (addrs ur)" "ua \<notin> set (addrs ur)" "g \<notin> set (addrs ur)"
    and out_fs: "p \<notin> set (ctx_addrs fs)" "ua \<notin> set (ctx_addrs fs)" "g \<notin> set (ctx_addrs fs)"
    using dist u by auto
  have hole: "rbsub ?c hole" "bhOf ?c hole = bhOf col hole" "rootcol ?c hole = Red"
    using f out_hole by simp_all
  have s: "rbsub ?c s" "bhOf ?c s = bhOf col hole" "rootcol ?c s = Black"
    using f out_s by simp_all
  have ul: "rbsub ?c ul" "bhOf ?c ul = bhOf col ul"
    and ur': "rbsub ?c ur" "bhOf ?c ur = bhOf col ur"
    using f u out_ul out_ur by simp_all
  have bu: "bhOf col ul = bhOf col hole" "bhOf col ur = bhOf col hole"
    using f u ur by auto
  let ?ps = "plug [(d1, p, s)] hole"
  have ps: "rbsub ?c ?ps" "bhOf ?c ?ps = Suc (bhOf col hole)" "rootcol ?c ?ps = Black"
    using hole s ne by (cases d1; simp)+
  have u': "rbsub ?c u" "bhOf ?c u = Suc (bhOf col hole)" "rootcol ?c u = Black"
    using ul ur' bu u ne by simp_all
  let ?n = "plug [(d2, g, u)] ?ps"
  have n: "?n \<noteq> Lf" "rootcol ?c ?n = Red" "rbsub ?c ?n" "bhOf ?c ?n = Suc (bhOf col hole)"
    using ps u' by (cases d2; simp)+
  have "ctx_ok ?c fs Black (Suc (bhOf col hole))" "ctx_rootcol ?c fs Black = Black"
    using f out_fs by simp_all
  then show ?thesis using n unfolding colInv_def by simp
qed

lemma case3_colors_left:
  assumes inv: "colInv col ((DL, p, s) # (DL, g, u) # fs) hole" and pr: "col p = Red"
    and ub: "rootcol col u = Black"
    and dist: "distinct (addrs hole @ ctx_addrs ((DL, p, s) # (DL, g, u) # fs))"
  shows "colInv (col(p := Black, g := Red)) ((DL, p, Nd s g u) # fs) hole"
proof -
  let ?c = "col(p := Black, g := Red)"
  note f = colInv_facts[OF inv pr]
  have ne: "p \<noteq> g" using dist by auto
  have out_hole: "p \<notin> set (addrs hole)" "g \<notin> set (addrs hole)"
    and out_s: "p \<notin> set (addrs s)" "g \<notin> set (addrs s)"
    and out_u: "p \<notin> set (addrs u)" "g \<notin> set (addrs u)"
    and out_fs: "p \<notin> set (ctx_addrs fs)" "g \<notin> set (ctx_addrs fs)"
    using dist by auto
  have hole: "rbsub ?c hole" "bhOf ?c hole = bhOf col hole" "rootcol ?c hole = Red"
    using f out_hole by simp_all
  have s: "rbsub ?c s" "bhOf ?c s = bhOf col hole" "rootcol ?c s = Black"
    using f out_s by simp_all
  have u: "rbsub ?c u" "bhOf ?c u = bhOf col hole" "rootcol ?c u = Black"
    using f ub out_u by simp_all
  have "ctx_ok ?c fs Black (Suc (bhOf col hole))" "ctx_rootcol ?c fs Black = Black"
    using f out_fs by simp_all
  then show ?thesis using hole s u f ne unfolding colInv_def by simp
qed

lemma case3_colors_right:
  assumes inv: "colInv col ((DR, p, s) # (DR, g, u) # fs) hole" and pr: "col p = Red"
    and ub: "rootcol col u = Black"
    and dist: "distinct (addrs hole @ ctx_addrs ((DR, p, s) # (DR, g, u) # fs))"
  shows "colInv (col(p := Black, g := Red)) ((DR, p, Nd u g s) # fs) hole"
proof -
  let ?c = "col(p := Black, g := Red)"
  note f = colInv_facts[OF inv pr]
  have ne: "p \<noteq> g" using dist by auto
  have out_hole: "p \<notin> set (addrs hole)" "g \<notin> set (addrs hole)"
    and out_s: "p \<notin> set (addrs s)" "g \<notin> set (addrs s)"
    and out_u: "p \<notin> set (addrs u)" "g \<notin> set (addrs u)"
    and out_fs: "p \<notin> set (ctx_addrs fs)" "g \<notin> set (ctx_addrs fs)"
    using dist by auto
  have hole: "rbsub ?c hole" "bhOf ?c hole = bhOf col hole" "rootcol ?c hole = Red"
    using f out_hole by simp_all
  have s: "rbsub ?c s" "bhOf ?c s = bhOf col hole" "rootcol ?c s = Black"
    using f out_s by simp_all
  have u: "rbsub ?c u" "bhOf ?c u = bhOf col hole" "rootcol ?c u = Black"
    using f ub out_u by simp_all
  have "ctx_ok ?c fs Black (Suc (bhOf col hole))" "ctx_rootcol ?c fs Black = Black"
    using f out_fs by simp_all
  then show ?thesis using hole s u f ne unfolding colInv_def by simp
qed

lemma case2_colors_left:
  assumes inv: "colInv col ((DR, p, s) # (DL, g, u) # fs) (Nd l z r)" and pr: "col p = Red"
  shows "colInv col ((DL, z, r) # (DL, g, u) # fs) (Nd s p l)" "col z = Red"
  using assms by (auto simp: colInv_def)

lemma case2_colors_right:
  assumes inv: "colInv col ((DL, p, s) # (DR, g, u) # fs) (Nd l z r)" and pr: "col p = Red"
  shows "colInv col ((DR, z, l) # (DR, g, u) # fs) (Nd r p s)" "col z = Red"
  using assms by (auto simp: colInv_def)

subsection \<open>The recoloring steps\<close>

declare setColor.simps [simp del] setLeft.simps [simp del] setRight.simps [simp del]
  setParent.simps [simp del]

lemma upd_color_fields [simp]:
  "Parent (cells (upd t a (\<lambda>n. n\<lparr>Color := c\<rparr>)) k) = Parent (cells t k)"
  "Left (cells (upd t a (\<lambda>n. n\<lparr>Color := c\<rparr>)) k) = Left (cells t k)"
  "Right (cells (upd t a (\<lambda>n. n\<lparr>Color := c\<rparr>)) k) = Right (cells t k)"
  "Value (cells (upd t a (\<lambda>n. n\<lparr>Color := c\<rparr>)) k) = Value (cells t k)"
  "ID (cells (upd t a (\<lambda>n. n\<lparr>Color := c\<rparr>)) k) = ID (cells t k)"
  by (simp_all add: upd_def)

lemma isRed_root:
  assumes "NIL t = Ref nl" "nl \<notin> set (addrs u)"
  shows "isRed t (Ref (root_addr nl u)) = Some (rootcol (colorOf t) u = Red)"
  using assms by (cases u) (auto simp: isRed_def colorOf_def)

lemma isRed_Ref:
  assumes "NIL t = Ref nl" "a \<noteq> nl"
  shows "isRed t (Ref a) = Some (colorOf t a = Red)"
  using assms by (auto simp: isRed_def colorOf_def)

lemma insertCase1_eq:
  assumes "Parent (cells t z) = Ref p" "Parent (cells t p) = Ref g" and ws: "wellShaped t"
  shows "\<exists>t1. rb_insertCase1 (Ref z) (Ref ua) t = Some (Ref g, t1)
           \<and> sameData t t1 \<and> colorOf t1 = (colorOf t)(p := Black, ua := Black, g := Red)
           \<and> shapeInv t1 nl fs s = shapeInv t nl fs s"
proof -
  let ?t0 = "pushStep (rbStep StepRebalance [] (Some (ID (cells t z)))
               [ID (cells t z), ID (cells t p), ID (cells t ua)] (snapOf t)) t"
  let ?t1 = "upd ?t0 p (\<lambda>n. n\<lparr>Color := Black\<rparr>)"
  let ?t2 = "upd ?t1 ua (\<lambda>n. n\<lparr>Color := Black\<rparr>)"
  let ?t3 = "upd ?t2 g (\<lambda>n. n\<lparr>Color := Red\<rparr>)"
  have "rb_insertCase1 (Ref z) (Ref ua) t = Some (Ref g, pushStep (rbStep StepColorChange
           [ArgInt (Value (cells t p)), ArgInt (Value (cells t ua)), ArgInt (Value (cells t g))]
           (Some (ID (cells t g))) [] (snapOf ?t3)) ?t3)"
    unfolding rb_insertCase1_def
    by (simp add: set_upd assms addStep_eq cong: bind_weak_cong)
  moreover have "sameData t (pushStep st ?t3)" for st
    by (simp add: sameData_def upd_def)
  moreover have "colorOf (pushStep st ?t3) = (colorOf t)(p := Black, ua := Black, g := Red)"
    for st by simp
  moreover have "shapeInv (pushStep st ?t3) nl fs s = shapeInv t nl fs s" for st
    by simp
  ultimately show ?thesis by blast
qed

lemma insertCase3Recolor_eq:
  assumes "Parent (cells t z) = Ref p" "Parent (cells t p) = Ref g" and ws: "wellShaped t"
  shows "\<exists>t1. rb_insertCase3Recolor (Ref z) t = Some t1
           \<and> sameData t t1 \<and> colorOf t1 = (colorOf t)(p := Black, g := Red)
           \<and> (\<forall>fs s. shapeInv t1 nl fs s = shapeInv t nl fs s)
           \<and> (\<forall>k. Parent (cells t1 k) = Parent (cells t k))
           \<and> (\<exists>s1 s2. rbSteps t1 = rbSteps t @ [s1, s2]
                  \<and> Type s1 = StepRebalance \<and> Type s2 = StepColorChange
                  \<and> rb_getTreeSnapshot t = Some (TreeState s1)
                  \<and> rb_getTreeSnapshot t1 = Some (TreeState s2))"
proof -
  let ?s1 = "rbStep StepRebalance [] (Some (ID (cells t z))) [] (snapOf t)"
  let ?t0 = "pushStep ?s1 t"
  let ?t1 = "upd ?t0 p (\<lambda>n. n\<lparr>Color := Black\<rparr>)"
  let ?t2 = "upd ?t1 g (\<lambda>n. n\<lparr>Color := Red\<rparr>)"
  let ?s2 = "rbStep StepColorChange [ArgInt (Value (cells t p)), ArgInt (Value (cells t g))]
               (Some (ID (cells t p))) [] (snapOf ?t2)"
  have ws2: "wellShaped ?t2" using ws by simp
  have "rb_insertCase3Recolor (Ref z) t = Some (pushStep ?s2 ?t2)"
    unfolding rb_insertCase3Recolor_def
    by (simp add: set_upd assms addStep_eq cong: bind_weak_cong)
  moreover have "sameData t (pushStep ?s2 ?t2)"
    by (simp add: sameData_def upd_def)
  moreover have "colorOf (pushStep ?s2 ?t2) = (colorOf t)(p := Black, g := Red)"
    by simp
  moreover have "shapeInv (pushStep ?s2 ?t2) nl fs s = shapeInv t nl fs s"
    for fs s by simp
  moreover have "Parent (cells (pushStep ?s2 ?t2) k) = Parent (cells t k)"
    for k by simp
  moreover have "rbSteps (pushStep ?s2 ?t2) = rbSteps t @ [?s1, ?s2]"
    by simp
  moreover have "rb_getTreeSnapshot t = Some (TreeState ?s1)"
    using snapOf_eq[OF ws] by simp
  moreover have "rb_getTreeSnapshot (pushStep ?s2 ?t2) = Some (TreeState ?s2)"
    using snapshot_pushStep[OF ws2] snapOf_eq[OF ws2] by simp
  ultimately show ?thesis
    by (intro exI[of _ "pushStep ?s2 ?t2"] conjI exI[of _ ?s1] exI[of _ ?s2] allI) simp_all
qed

subsection \<open>The snapshots of Case 3\<close>

lemma snapHas_Cons: "snapHas (n # ns) i c par =
    ((snapID n = i \<and> snapColor n = Some c \<and> snapParentID n = par) \<or> snapHas ns i c par)"
  by (simp add: snapHas_def)

lemma snapHas_append: "snapHas (xs @ ys) i c par = (snapHas xs i c par \<or> snapHas ys i c par)"
  by (simp add: snapHas_def list_ex_iff) blast

lemma snap_entry:
  assumes "NIL t = Ref nl" "tree_at (cells t) nl par q S"
    "rb_inorderSnapshot t q d x y = Some snap" "a \<in> set (addrs S)"
    "linkID t (Parent (cells t a)) = Some v"
  shows "snapHas snap (ID (cells t a)) (Color (cells t a)) v"
  using assms(2-5)
proof (induction S arbitrary: par q d x y snap)
  case Lf
  then show ?case by simp
next
  case (Nd l b r)
  have q: "q = Ref b" "b \<noteq> nl"
    and tl: "tree_at (cells t) nl (Ref b) (Left (cells t b)) l"
    and tr: "tree_at (cells t) nl (Ref b) (Right (cells t b)) r"
    using Nd.prems(1) by simp_all
  obtain v1 v2 v3 where v: "linkID t (Left (cells t b)) = Some v1"
    "linkID t (Right (cells t b)) = Some v2" "linkID t (Parent (cells t b)) = Some v3"
    using linkID_Some by meson
  obtain ls where ls: "rb_inorderSnapshot t (Left (cells t b)) (Suc d) x ((x + y) / 2) = Some ls"
    using snapshot_Some[OF assms(1) tl] by blast
  obtain rs where rs: "rb_inorderSnapshot t (Right (cells t b)) (Suc d) ((x + y) / 2) y = Some rs"
    using snapshot_Some[OF assms(1) tr] by blast
  have snap: "snap = \<lparr>snapID = ID (cells t b), snapValue = Value (cells t b),
                snapColor = Some (Color (cells t b)),
                snapLeftID = v1, snapRightID = v2, snapParentID = v3,
                snapHeight = 0, snapX = (x + y) / 2,
                snapY = real (d * 80 + 50)\<rparr> # ls @ rs"
    using Nd.prems(2)
    by (subst (asm) rb_inorderSnapshot.simps) (simp add: q assms(1) v ls rs)
  consider "a = b" | "a \<in> set (addrs l)" | "a \<in> set (addrs r)"
    using Nd.prems(3) by auto
  then show ?case
  proof cases
    case 1
    then show ?thesis using Nd.prems(4) v(3) unfolding snap by (simp add: snapHas_Cons)
  next
    case 2
    from Nd.IH(1)[OF tl ls 2 Nd.prems(4)] show ?thesis
      unfolding snap by (simp add: snapHas_Cons snapHas_append)
  next
    case 3
    from Nd.IH(2)[OF tr rs 3 Nd.prems(4)] show ?thesis
      unfolding snap by (simp add: snapHas_Cons snapHas_append)
  qed
qed

lemma linkID_Ref: "NIL t = Ref nl \<Longrightarrow> b \<noteq> nl \<Longrightarrow> linkID t (Ref b) = Some (Some (ID (cells t b)))"
  by (simp add: linkID_def)

lemma linkID_top:
  assumes "NIL t = Ref nl" "nl \<notin> set (ctx_addrs fs)"
  shows "linkID t (ctx_parent nl fs) = Some (topID t fs)"
proof (cases fs)
  case Nil
  then show ?thesis using assms by (simp add: linkID_def topID_def)
next
  case (Cons f gs)
  obtain d a sib where "f = (d, a, sib)" by (cases f) auto
  then show ?thesis using assms Cons by (simp add: linkID_def topID_def)
qed

lemma shape_entry:
  assumes sh: "shapeInv t nl fs hole" and snap: "rb_getTreeSnapshot t = Some snap"
    and a: "a \<in> set (addrs hole) \<union> set (ctx_addrs fs)"
    and lk: "linkID t (Parent (cells t a)) = Some v"
  shows "snapHas snap (ID (cells t a)) (colorOf t a) v"
proof -
  have "a \<in> set (addrs (plug fs hole))" using a by (simp add: set_addrs_plug)
  then show ?thesis
    using snap_entry[OF shapeInv_tree(1,2)[OF sh] snap[unfolded rb_getTreeSnapshot_def] _ lk]
    by (simp add: colorOf_def)
qed

lemma shapeInv_nl_ctx: "shapeInv t nl fs s \<Longrightarrow> nl \<notin> set (ctx_addrs fs)"
  using ctx_at_not_nil unfolding shapeInv_def by blast

lemma topID_sameData: "sameData t t1 \<Longrightarrow> topID t1 fs = topID t fs"
  by (cases fs) (auto simp: topID_def sameData_def)

lemma shapeInv_frame:
  assumes "shapeInv t nl ((d, a, sib) # fs) hole"
  shows "a \<noteq> nl" "Parent (cells t a) = ctx_parent nl fs"
    "hole = Nd hl b hr \<Longrightarrow> Parent (cells t b) = Ref a"
    "sib = Nd sl c sr \<Longrightarrow> Parent (cells t c) = Ref a"
  using assms unfolding shapeInv_def by (cases d; auto)+

lemma case3_entries:
  assumes nil: "NIL tA = Ref nl" "NIL tB = Ref nl" "NIL tC = Ref nl"
    and nlfs: "nl \<notin> set (ctx_addrs fs)" and pg: "p \<noteq> nl" "g \<noteq> nl" "p \<noteq> g"
    and shA: "shapeInv tA nl FA hA" and shB: "shapeInv tB nl FA hA"
    and shC: "shapeInv tC nl FC hC"
    and memA: "p \<in> set (addrs hA) \<union> set (ctx_addrs FA)" "g \<in> set (addrs hA) \<union> set (ctx_addrs FA)"
    and memC: "p \<in> set (addrs hC) \<union> set (ctx_addrs FC)" "g \<in> set (addrs hC) \<union> set (ctx_addrs FC)"
    and parA: "Parent (cells tA p) = Ref g" "Parent (cells tA g) = ctx_parent nl fs"
    and parB: "\<forall>k. Parent (cells tB k) = Parent (cells tA k)"
    and parC: "Parent (cells tC p) = ctx_parent nl fs" "Parent (cells tC g) = Ref p"
    and colA: "colorOf tA p = Red" "colorOf tA g = Black"
    and colB: "colorOf tB = (colorOf tA)(p := Black, g := Red)"
    and colC: "colorOf tC = colorOf tB"
    and sdB: "sameData tA tB" and sdC: "sameData tB tC"
    and snA: "rb_getTreeSnapshot tA = Some (TreeState s1)"
    and snB: "rb_getTreeSnapshot tB = Some (TreeState s2)"
    and snC: "rb_getTreeSnapshot tC = Some (TreeState s3)"
    and ty: "Type s1 = StepRebalance" "Type s2 = StepColorChange" "Type s3 = rot"
  shows "case3Trace [s1, s2, s3] rot (ID (cells tA p)) (ID (cells tA g)) (topID tA fs)"
proof -
  have idB: "ID (cells tB k) = ID (cells tA k)" for k using sdB by (simp add: sameData_def)
  have idC: "ID (cells tC k) = ID (cells tA k)" for k using sdB sdC by (simp add: sameData_def)
  have topB: "topID tB fs = topID tA fs" using topID_sameData[OF sdB] .
  have topC: "topID tC fs = topID tA fs" using topID_sameData[OF sdC] topB by simp
  have "snapHas (TreeState s1) (ID (cells tA p)) (colorOf tA p) (Some (ID (cells tA g)))"
    using shape_entry[OF shA snA memA(1)] linkID_Ref[OF nil(1) pg(2)] parA(1) by simp
  moreover have "snapHas (TreeState s1) (ID (cells tA g)) (colorOf tA g) (topID tA fs)"
    using shape_entry[OF shA snA memA(2)] linkID_top[OF nil(1) nlfs] parA(2) by simp
  moreover have "snapHas (TreeState s2) (ID (cells tB p)) (colorOf tB p) (Some (ID (cells tB g)))"
    using shape_entry[OF shB snB memA(1)] linkID_Ref[OF nil(2) pg(2)] parA(1) parB by simp
  moreover have "snapHas (TreeState s2) (ID (cells tB g)) (colorOf tB g) (topID tB fs)"
    using shape_entry[OF shB snB memA(2)] linkID_top[OF nil(2) nlfs] parA(2) parB by simp
  moreover have "snapHas (TreeState s3) (ID (cells tC p)) (colorOf tC p) (topID tC fs)"
    using shape_entry[OF shC snC memC(1)] linkID_top[OF nil(3) nlfs] parC(1) by simp
  moreover have "snapHas (TreeState s3) (ID (cells tC g)) (colorOf tC g) (Some (ID (cells tC p)))"
    using shape_entry[OF shC snC memC(2)] linkID_Ref[OF nil(3) pg(1)] parC(2) by simp
  ultimately show ?thesis
    using ty colA pg(3) unfolding case3Trace_def colC colB idB idC topB topC by simp
qed

lemma case3_tail_left:
  assumes inv: "fixInv t nl ((DL, p, s) # (DL, g, u) # fs) (Nd l z r)"
    and pr: "colorOf t p = Red" and ub: "rootcol (colorOf t) u = Black"
  shows "\<exists>t3 t4. rb_insertCase3Recolor (Ref z) t = Some t3
           \<and> Parent (cells t3 z) = Ref p \<and> Parent (cells t3 p) = Ref g
           \<and> rb_rightRotate (Ref g) t3 = Some t4
           \<and> fixInv t4 nl ((DL, p, Nd s g u) # fs) (Nd l z r)
           \<and> colorOf t4 p = Black \<and> sameData t t4
           \<and> (\<exists>ss. rbSteps t4 = rbSteps t @ ss
                  \<and> case3Trace ss StepRotateRight (ID (cells t p)) (ID (cells t g)) (topID t fs))"
proof -
  let ?F = "(DL, p, s) # (DL, g, u) # fs"
  have sh: "shapeInv t nl ?F (Nd l z r)"
    and ci: "colInv (colorOf t) ?F (Nd l z r)"
    using inv by (simp_all add: fixInv_def)
  note lk = shapeInv_links[OF sh]
  have dist: "distinct (addrs (Nd l z r) @ ctx_addrs ?F)"
    using sh by (simp add: shapeInv_def)
  have ws: "wellShaped t" using shapeInv_wellShaped[OF sh] .
  obtain t3 s1 s2 where rc: "rb_insertCase3Recolor (Ref z) t = Some t3"
    and sd3: "sameData t t3" and col3: "colorOf t3 = (colorOf t)(p := Black, g := Red)"
    and sh3: "\<forall>fs s. shapeInv t3 nl fs s = shapeInv t nl fs s"
    and par3: "\<forall>k. Parent (cells t3 k) = Parent (cells t k)"
    and st3: "rbSteps t3 = rbSteps t @ [s1, s2]"
    and ty12: "Type s1 = StepRebalance" "Type s2 = StepColorChange"
    and sn1: "rb_getTreeSnapshot t = Some (TreeState s1)"
    and sn2: "rb_getTreeSnapshot t3 = Some (TreeState s2)"
    using insertCase3Recolor_eq[OF lk(8) lk(9) ws, of nl] by (elim exE conjE) (rule that)
  have shB: "shapeInv t3 nl ?F (Nd l z r)" using sh sh3 by simp
  from shapeInv_zip[OF this] have shB1: "shapeInv t3 nl ((DL, g, u) # fs) (Nd (Nd l z r) p s)"
    by simp
  from shapeInv_zip[OF this] have "shapeInv t3 nl fs (Nd (Nd (Nd l z r) p s) g u)" by simp
  from shapeInv_rightRotate[OF this] obtain t4 s3 where rot: "rb_rightRotate (Ref g) t3 = Some t4"
    and sh4: "shapeInv t4 nl fs (Nd (Nd l z r) p (Nd s g u))"
    and sd4: "sameData t3 t4" and col4: "colorOf t4 = colorOf t3"
    and st4: "rbSteps t4 = rbSteps t3 @ [s3]" and ty3: "Type s3 = StepRotateRight"
    and sn3: "rb_getTreeSnapshot t4 = Some (TreeState s3)"
    by (elim exE conjE) (rule that)
  have shC: "shapeInv t4 nl ((DL, p, Nd s g u) # fs) (Nd l z r)"
    using shapeInv_unzipL[OF sh4] .
  have shA1: "shapeInv t nl ((DL, g, u) # fs) (Nd (Nd l z r) p s)"
    using shapeInv_zip[OF sh] by simp
  have tr: "case3Trace [s1, s2, s3] StepRotateRight (ID (cells t p)) (ID (cells t g)) (topID t fs)"
  proof (rule case3_entries[where tA = t and tB = t3 and tC = t4 and nl = nl
        and FA = ?F and hA = "Nd l z r" and FC = "(DL, p, Nd s g u) # fs" and hC = "Nd l z r"])
    show "NIL t = Ref nl" using lk(1) .
    show "NIL t3 = Ref nl" using shB by (simp add: shapeInv_def)
    show "NIL t4 = Ref nl" using shC by (simp add: shapeInv_def)
    show "nl \<notin> set (ctx_addrs fs)" using shapeInv_nl_ctx[OF sh] by simp
    show "p \<noteq> nl" "g \<noteq> nl" "p \<noteq> g" using lk by simp_all
    show "shapeInv t nl ?F (Nd l z r)" using sh .
    show "shapeInv t3 nl ?F (Nd l z r)" using shB .
    show "shapeInv t4 nl ((DL, p, Nd s g u) # fs) (Nd l z r)" using shC .
    show "Parent (cells t p) = Ref g" using lk(9) .
    show "Parent (cells t g) = ctx_parent nl fs" using shapeInv_frame(2)[OF shA1] .
    show "\<forall>k. Parent (cells t3 k) = Parent (cells t k)" using par3 .
    show "Parent (cells t4 p) = ctx_parent nl fs" using shapeInv_frame(2)[OF shC] .
    show "Parent (cells t4 g) = Ref p" using shapeInv_frame(4)[OF shC] by simp
    show "colorOf t p = Red" using pr .
    show "colorOf t g = Black" using colInv_facts(1)[OF ci pr] .
    show "colorOf t3 = (colorOf t)(p := Black, g := Red)" using col3 .
    show "colorOf t4 = colorOf t3" using col4 .
    show "sameData t t3" using sd3 .
    show "sameData t3 t4" using sd4 .
    show "rb_getTreeSnapshot t = Some (TreeState s1)" using sn1 .
    show "rb_getTreeSnapshot t3 = Some (TreeState s2)" using sn2 .
    show "rb_getTreeSnapshot t4 = Some (TreeState s3)" using sn3 .
    show "Type s1 = StepRebalance" "Type s2 = StepColorChange" "Type s3 = StepRotateRight"
      using ty12 ty3 by simp_all
  qed simp_all
  have steps: "rbSteps t4 = rbSteps t @ [s1, s2, s3]" using st3 st4 by simp
  have "colInv (colorOf t4) ((DL, p, Nd s g u) # fs) (Nd l z r)"
    using case3_colors_left[OF ci pr ub dist] col4 col3 by simp
  moreover have "colorOf t4 p = Black" using col4 col3 lk(7) by simp
  ultimately show ?thesis
    using rc rot par3 lk(8) lk(9) sameData_trans[OF sd3 sd4] shC steps tr
    by (intro exI[of _ t3] exI[of _ t4] conjI exI[of _ "[s1, s2, s3]"]) (simp_all add: fixInv_def)
qed

lemma case3_tail_right:
  assumes inv: "fixInv t nl ((DR, p, s) # (DR, g, u) # fs) (Nd l z r)"
    and pr: "colorOf t p = Red" and ub: "rootcol (colorOf t) u = Black"
  shows "\<exists>t3 t4. rb_insertCase3Recolor (Ref z) t = Some t3
           \<and> Parent (cells t3 z) = Ref p \<and> Parent (cells t3 p) = Ref g
           \<and> rb_leftRotate (Ref g) t3 = Some t4
           \<and> fixInv t4 nl ((DR, p, Nd u g s) # fs) (Nd l z r)
           \<and> colorOf t4 p = Black \<and> sameData t t4
           \<and> (\<exists>ss. rbSteps t4 = rbSteps t @ ss
                  \<and> case3Trace ss StepRotateLeft (ID (cells t p)) (ID (cells t g)) (topID t fs))"
proof -
  let ?F = "(DR, p, s) # (DR, g, u) # fs"
  have sh: "shapeInv t nl ?F (Nd l z r)"
    and ci: "colInv (colorOf t) ?F (Nd l z r)"
    using inv by (simp_all add: fixInv_def)
  note lk = shapeInv_links[OF sh]
  have dist: "distinct (addrs (Nd l z r) @ ctx_addrs ?F)"
    using sh by (simp add: shapeInv_def)
  have ws: "wellShaped t" using shapeInv_wellShaped[OF sh] .
  obtain t3 s1 s2 where rc: "rb_insertCase3Recolor (Ref z) t = Some t3"
    and sd3: "sameData t t3" and col3: "colorOf t3 = (colorOf t)(p := Black, g := Red)"
    and sh3: "\<forall>fs s. shapeInv t3 nl fs s = shapeInv t nl fs s"
    and par3: "\<forall>k. Parent (cells t3 k) = Parent (cells t k)"
    and st3: "rbSteps t3 = rbSteps t @ [s1, s2]"
    and ty12: "Type s1 = StepRebalance" "Type s2 = StepColorChange"
    and sn1: "rb_getTreeSnapshot t = Some (TreeState s1)"
    and sn2: "rb_getTreeSnapshot t3 = Some (TreeState s2)"
    using insertCase3Recolor_eq[OF lk(8) lk(9) ws, of nl] by (elim exE conjE) (rule that)
  have shB: "shapeInv t3 nl ?F (Nd l z r)" using sh sh3 by simp
  from shapeInv_zip[OF this] have shB1: "shapeInv t3 nl ((DR, g, u) # fs) (Nd s p (Nd l z r))"
    by simp
  from shapeInv_zip[OF this] have "shapeInv t3 nl fs (Nd u g (Nd s p (Nd l z r)))" by simp
  from shapeInv_leftRotate[OF this] obtain t4 s3 where rot: "rb_leftRotate (Ref g) t3 = Some t4"
    and sh4: "shapeInv t4 nl fs (Nd (Nd u g s) p (Nd l z r))"
    and sd4: "sameData t3 t4" and col4: "colorOf t4 = colorOf t3"
    and st4: "rbSteps t4 = rbSteps t3 @ [s3]" and ty3: "Type s3 = StepRotateLeft"
    and sn3: "rb_getTreeSnapshot t4 = Some (TreeState s3)"
    by (elim exE conjE) (rule that)
  have shC: "shapeInv t4 nl ((DR, p, Nd u g s) # fs) (Nd l z r)"
    using shapeInv_unzipR[OF sh4] .
  have shA1: "shapeInv t nl ((DR, g, u) # fs) (Nd s p (Nd l z r))"
    using shapeInv_zip[OF sh] by simp
  have tr: "case3Trace [s1, s2, s3] StepRotateLeft (ID (cells t p)) (ID (cells t g)) (topID t fs)"
  proof (rule case3_entries[where tA = t and tB = t3 and tC = t4 and nl = nl
        and FA = ?F and hA = "Nd l z r" and FC = "(DR, p, Nd u g s) # fs" and hC = "Nd l z r"])
    show "NIL t = Ref nl" using lk(1) .
    show "NIL t3 = Ref nl" using shB by (simp add: shapeInv_def)
    show "NIL t4 = Ref nl" using shC by (simp add: shapeInv_def)
    show "nl \<notin> set (ctx_addrs fs)" using shapeInv_nl_ctx[OF sh] by simp
    show "p \<noteq> nl" "g \<noteq> nl" "p \<noteq> g" using lk by simp_all
    show "shapeInv t nl ?F (Nd l z r)" using sh .
    show "shapeInv t3 nl ?F (Nd l z r)" using shB .
    show "shapeInv t4 nl ((DR, p, Nd u g s) # fs) (Nd l z r)" using shC .
    show "Parent (cells t p) = Ref g" using lk(9) .
    show "Parent (cells t g) = ctx_parent nl fs" using shapeInv_frame(2)[OF shA1] .
    show "\<forall>k. Parent (cells t3 k) = Parent (cells t k)" using par3 .
    show "Parent (cells t4 p) = ctx_parent nl fs" using shapeInv_frame(2)[OF shC] .
    show "Parent (cells t4 g) = Ref p" using shapeInv_frame(4)[OF shC] by simp
    show "colorOf t p = Red" using pr .
    show "colorOf t g = Black" using colInv_facts(1)[OF ci pr] .
    show "colorOf t3 = (colorOf t)(p := Black, g := Red)" using col3 .
    show "colorOf t4 = colorOf t3" using col4 .
    show "sameData t t3" using sd3 .
    show "sameData t3 t4" using sd4 .
    show "rb_getTreeSnapshot t = Some (TreeState s1)" using sn1 .
    show "rb_getTreeSnapshot t3 = Some (TreeState s2)" using sn2 .
    show "rb_getTreeSnapshot t4 = Some (TreeState s3)" using sn3 .
    show "Type s1 = StepRebalance" "Type s2 = StepColorChange" "Type s3 = StepRotateLeft"
      using ty12 ty3 by simp_all
  qed simp_all
  have steps: "rbSteps t4 = rbSteps t @ [s1, s2, s3]" using st3 st4 by simp
  have "colInv (colorOf t4) ((DR, p, Nd u g s) # fs) (Nd l z r)"
    using case3_colors_right[OF ci pr ub dist] col4 col3 by simp
  moreover have "colorOf t4 p = Black" using col4 col3 lk(7) by simp
  ultimately show ?thesis
    using rc rot par3 lk(8) lk(9) sameData_trans[OF sd3 sd4] shC steps tr
    by (intro exI[of _ t3] exI[of _ t4] conjI exI[of _ "[s1, s2, s3]"]) (simp_all add: fixInv_def)
qed

subsection \<open>One iteration of the fixup loop\<close>

lemma set_plug2:
  "set (addrs (plug (f1 # f2 # fs) s)) = set (addrs s) \<union> set (ctx_addrs [f1]) \<union> set (ctx_addrs [f2])
     \<union> set (ctx_addrs fs)"
  by (cases f1; cases f2) (auto simp: set_addrs_plug)

lemma sameData_ID: "sameData t t1 \<Longrightarrow> ID (cells t1 k) = ID (cells t k)"
  by (simp add: sameData_def)

text \<open>Uncle black, the parent being the left child of the grandparent.\<close>

lemma case3_body_left:
  assumes inv: "fixInv t nl ((d1, p, s) # (DL, g, u) # fs) (Nd l z r)"
    and pr: "colorOf t p = Red" and ub: "rootcol (colorOf t) u = Black"
  shows "\<exists>t1 fs1 hole1 pre ss.
           rb_insertFixupBody (Ref z) t = Some (Ref (root_addr nl hole1), t1)
           \<and> fixInv t1 nl fs1 hole1 \<and> sameData t t1
           \<and> set (addrs (plug fs1 hole1))
               = set (addrs (plug ((d1, p, s) # (DL, g, u) # fs) (Nd l z r)))
           \<and> fs1 \<noteq> [] \<and> colorOf t1 (top_addr nl fs1) = Black
           \<and> rbSteps t1 = rbSteps t @ pre @ ss
           \<and> map Type pre = (if d1 = DL then [] else [StepRebalance, StepRotateLeft])
           \<and> case3Trace ss StepRotateRight (ID (cells t (if d1 = DL then p else z)))
                (ID (cells t g)) (topID t fs)"
proof -
  let ?F = "(d1, p, s) # (DL, g, u) # fs"
  have sh: "shapeInv t nl ?F (Nd l z r)" and ci: "colInv (colorOf t) ?F (Nd l z r)"
    using inv by (simp_all add: fixInv_def)
  note lk = shapeInv_links[OF sh]
  have ws: "wellShaped t" using shapeInv_wellShaped[OF sh] .
  have nlu: "nl \<notin> set (addrs u)"
    using sh tree_at_not_nil ctx_at_not_nil unfolding shapeInv_def by fastforce
  have red_u: "isRed t (Ref (root_addr nl u)) = Some False"
    using isRed_root[OF lk(1) nlu] ub by simp
  have lg: "Left (cells t g) = Ref p" "Right (cells t g) = Ref (root_addr nl u)"
    using lk(10,11) by simp_all
  show ?thesis
  proof (cases d1)
    case DL
    have lp: "Right (cells t p) = Ref (root_addr nl s)" using lk(13) DL by simp
    obtain t3 t4 ss where rc: "rb_insertCase3Recolor (Ref z) t = Some t3"
      and p3: "Parent (cells t3 z) = Ref p" "Parent (cells t3 p) = Ref g"
      and rot: "rb_rightRotate (Ref g) t3 = Some t4"
      and inv4: "fixInv t4 nl ((DL, p, Nd s g u) # fs) (Nd l z r)"
      and bl: "colorOf t4 p = Black" and sd: "sameData t t4"
      and st: "rbSteps t4 = rbSteps t @ ss"
      and tr: "case3Trace ss StepRotateRight (ID (cells t p)) (ID (cells t g)) (topID t fs)"
      using case3_tail_left[OF inv[unfolded DL] pr ub] by (elim exE conjE) (rule that)
    have ne: "z \<noteq> root_addr nl s" using lk(17) by simp
    have body: "rb_insertFixupBody (Ref z) t = Some (Ref z, t4)"
      unfolding rb_insertFixupBody_def
      by (simp add: lk(8,9) lg red_u lp ne rc p3 rot cong: bind_weak_cong)
    have "set (addrs (plug ((DL, p, Nd s g u) # fs) (Nd l z r))) = set (addrs (plug ?F (Nd l z r)))"
      using DL by (auto simp: set_addrs_plug)
    then show ?thesis using body inv4 bl sd st tr DL
      by (intro exI[of _ t4] exI[of _ "(DL, p, Nd s g u) # fs"] exI[of _ "Nd l z r"]
            exI[of _ "[]"] exI[of _ ss]) simp
  next
    case DR
    have lp: "Right (cells t p) = Ref z" using lk(13) DR by simp
    let ?s0 = "rbStep StepRebalance [] (Some (ID (cells t p))) [] (snapOf t)"
    let ?t0 = "pushStep ?s0 t"
    have "shapeInv ?t0 nl ((DR, p, s) # (DL, g, u) # fs) (Nd l z r)" using sh DR by simp
    from shapeInv_zip[OF this] have "shapeInv ?t0 nl ((DL, g, u) # fs) (Nd s p (Nd l z r))"
      by simp
    from shapeInv_leftRotate[OF this] obtain t1 s1 where
      rot1: "rb_leftRotate (Ref p) ?t0 = Some t1"
      and sh1: "shapeInv t1 nl ((DL, g, u) # fs) (Nd (Nd s p l) z r)"
      and sd1: "sameData ?t0 t1" and col1: "colorOf t1 = colorOf ?t0"
      and st1: "rbSteps t1 = rbSteps ?t0 @ [s1]" and ty1: "Type s1 = StepRotateLeft"
      by (elim exE conjE) (rule that)
    have col1': "colorOf t1 = colorOf t" using col1 by simp
    have sdt1: "sameData t t1" using sameData_trans[OF sameData_pushStep sd1] .
    have inv1: "fixInv t1 nl ((DL, z, r) # (DL, g, u) # fs) (Nd s p l)"
      using shapeInv_unzipL[OF sh1] case2_colors_left(1)[OF ci[unfolded DR] pr] col1'
      by (simp add: fixInv_def)
    have zr: "colorOf t1 z = Red"
      using case2_colors_left(2)[OF ci[unfolded DR] pr] col1' by simp
    have ub1: "rootcol (colorOf t1) u = Black" using ub col1' by simp
    obtain t3 t4 ss where rc: "rb_insertCase3Recolor (Ref p) t1 = Some t3"
      and p3: "Parent (cells t3 p) = Ref z" "Parent (cells t3 z) = Ref g"
      and rot: "rb_rightRotate (Ref g) t3 = Some t4"
      and inv4: "fixInv t4 nl ((DL, z, Nd r g u) # fs) (Nd s p l)"
      and bl: "colorOf t4 z = Black" and sd: "sameData t1 t4"
      and st: "rbSteps t4 = rbSteps t1 @ ss"
      and tr: "case3Trace ss StepRotateRight (ID (cells t1 z)) (ID (cells t1 g)) (topID t1 fs)"
      using case3_tail_left[OF inv1 zr ub1] by (elim exE conjE) (rule that)
    have body: "rb_insertFixupBody (Ref z) t = Some (Ref p, t4)"
      unfolding rb_insertFixupBody_def
      by (simp add: lk(8,9) lg red_u lp addStep_eq[OF ws] rot1 rc p3 rot cong: bind_weak_cong)
    have sdt: "sameData t t4" using sameData_trans[OF sdt1 sd] .
    have tr': "case3Trace ss StepRotateRight (ID (cells t z)) (ID (cells t g)) (topID t fs)"
      using tr by (simp add: sameData_ID[OF sdt1] topID_sameData[OF sdt1])
    have steps: "rbSteps t4 = rbSteps t @ [?s0, s1] @ ss" using st st1 by simp
    have "set (addrs (plug ((DL, z, Nd r g u) # fs) (Nd s p l))) = set (addrs (plug ?F (Nd l z r)))"
      using DR by (auto simp: set_addrs_plug)
    then show ?thesis using body inv4 bl sdt steps tr' ty1 DR
      by (intro exI[of _ t4] exI[of _ "(DL, z, Nd r g u) # fs"] exI[of _ "Nd s p l"]
            exI[of _ "[?s0, s1]"] exI[of _ ss]) simp
  qed
qed

text \<open>The mirror image: the parent is the right child of the grandparent.\<close>

lemma case3_body_right:
  assumes inv: "fixInv t nl ((d1, p, s) # (DR, g, u) # fs) (Nd l z r)"
    and pr: "colorOf t p = Red" and ub: "rootcol (colorOf t) u = Black"
  shows "\<exists>t1 fs1 hole1 pre ss.
           rb_insertFixupBody (Ref z) t = Some (Ref (root_addr nl hole1), t1)
           \<and> fixInv t1 nl fs1 hole1 \<and> sameData t t1
           \<and> set (addrs (plug fs1 hole1))
               = set (addrs (plug ((d1, p, s) # (DR, g, u) # fs) (Nd l z r)))
           \<and> fs1 \<noteq> [] \<and> colorOf t1 (top_addr nl fs1) = Black
           \<and> rbSteps t1 = rbSteps t @ pre @ ss
           \<and> map Type pre = (if d1 = DR then [] else [StepRebalance, StepRotateRight])
           \<and> case3Trace ss StepRotateLeft (ID (cells t (if d1 = DR then p else z)))
                (ID (cells t g)) (topID t fs)"
proof -
  let ?F = "(d1, p, s) # (DR, g, u) # fs"
  have sh: "shapeInv t nl ?F (Nd l z r)" and ci: "colInv (colorOf t) ?F (Nd l z r)"
    using inv by (simp_all add: fixInv_def)
  note lk = shapeInv_links[OF sh]
  have ws: "wellShaped t" using shapeInv_wellShaped[OF sh] .
  have nlu: "nl \<notin> set (addrs u)"
    using sh tree_at_not_nil ctx_at_not_nil unfolding shapeInv_def by fastforce
  have red_u: "isRed t (Ref (root_addr nl u)) = Some False"
    using isRed_root[OF lk(1) nlu] ub by simp
  have lg: "Left (cells t g) = Ref (root_addr nl u)" "Right (cells t g) = Ref p"
    using lk(10,11) by simp_all
  have pu: "p \<noteq> root_addr nl u" using lk(14) by simp
  show ?thesis
  proof (cases d1)
    case DR
    have lp: "Left (cells t p) = Ref (root_addr nl s)" using lk(12) DR by simp
    obtain t3 t4 ss where rc: "rb_insertCase3Recolor (Ref z) t = Some t3"
      and p3: "Parent (cells t3 z) = Ref p" "Parent (cells t3 p) = Ref g"
      and rot: "rb_leftRotate (Ref g) t3 = Some t4"
      and inv4: "fixInv t4 nl ((DR, p, Nd u g s) # fs) (Nd l z r)"
      and bl: "colorOf t4 p = Black" and sd: "sameData t t4"
      and st: "rbSteps t4 = rbSteps t @ ss"
      and tr: "case3Trace ss StepRotateLeft (ID (cells t p)) (ID (cells t g)) (topID t fs)"
      using case3_tail_right[OF inv[unfolded DR] pr ub] by (elim exE conjE) (rule that)
    have ne: "z \<noteq> root_addr nl s" using lk(17) by simp
    have body: "rb_insertFixupBody (Ref z) t = Some (Ref z, t4)"
      unfolding rb_insertFixupBody_def
      by (simp add: lk(8,9) lg pu red_u lp ne rc p3 rot cong: bind_weak_cong)
    have "set (addrs (plug ((DR, p, Nd u g s) # fs) (Nd l z r))) = set (addrs (plug ?F (Nd l z r)))"
      using DR by (auto simp: set_addrs_plug)
    then show ?thesis using body inv4 bl sd st tr DR
      by (intro exI[of _ t4] exI[of _ "(DR, p, Nd u g s) # fs"] exI[of _ "Nd l z r"]
            exI[of _ "[]"] exI[of _ ss]) simp
  next
    case DL
    have lp: "Left (cells t p) = Ref z" using lk(12) DL by simp
    let ?s0 = "rbStep StepRebalance [] (Some (ID (cells t p))) [] (snapOf t)"
    let ?t0 = "pushStep ?s0 t"
    have "shapeInv ?t0 nl ((DL, p, s) # (DR, g, u) # fs) (Nd l z r)" using sh DL by simp
    from shapeInv_zip[OF this] have "shapeInv ?t0 nl ((DR, g, u) # fs) (Nd (Nd l z r) p s)"
      by simp
    from shapeInv_rightRotate[OF this] obtain t1 s1 where
      rot1: "rb_rightRotate (Ref p) ?t0 = Some t1"
      and sh1: "shapeInv t1 nl ((DR, g, u) # fs) (Nd l z (Nd r p s))"
      and sd1: "sameData ?t0 t1" and col1: "colorOf t1 = colorOf ?t0"
      and st1: "rbSteps t1 = rbSteps ?t0 @ [s1]" and ty1: "Type s1 = StepRotateRight"
      by (elim exE conjE) (rule that)
    have col1': "colorOf t1 = colorOf t" using col1 by simp
    have sdt1: "sameData t t1" using sameData_trans[OF sameData_pushStep sd1] .
    have inv1: "fixInv t1 nl ((DR, z, l) # (DR, g, u) # fs) (Nd r p s)"
      using shapeInv_unzipR[OF sh1] case2_colors_right(1)[OF ci[unfolded DL] pr] col1'
      by (simp add: fixInv_def)
    have zr: "colorOf t1 z = Red"
      using case2_colors_right(2)[OF ci[unfolded DL] pr] col1' by simp
    have ub1: "rootcol (colorOf t1) u = Black" using ub col1' by simp
    obtain t3 t4 ss where rc: "rb_insertCase3Recolor (Ref p) t1 = Some t3"
      and p3: "Parent (cells t3 p) = Ref z" "Parent (cells t3 z) = Ref g"
      and rot: "rb_leftRotate (Ref g) t3 = Some t4"
      and inv4: "fixInv t4 nl ((DR, z, Nd u g l) # fs) (Nd r p s)"
      and bl: "colorOf t4 z = Black" and sd: "sameData t1 t4"
      and st: "rbSteps t4 = rbSteps t1 @ ss"
      and tr: "case3Trace ss StepRotateLeft (ID (cells t1 z)) (ID (cells t1 g)) (topID t1 fs)"
      using case3_tail_right[OF inv1 zr ub1] by (elim exE conjE) (rule that)
    have body: "rb_insertFixupBody (Ref z) t = Some (Ref p, t4)"
      unfolding rb_insertFixupBody_def
      by (simp add: lk(8,9) lg pu red_u lp addStep_eq[OF ws] rot1 rc p3 rot cong: bind_weak_cong)
    have sdt: "sameData t t4" using sameData_trans[OF sdt1 sd] .
    have tr': "case3Trace ss StepRotateLeft (ID (cells t z)) (ID (cells t g)) (topID t fs)"
      using tr by (simp add: sameData_ID[OF sdt1] topID_sameData[OF sdt1])
    have steps: "rbSteps t4 = rbSteps t @ [?s0, s1] @ ss" using st st1 by simp
    have "set (addrs (plug ((DR, z, Nd u g l) # fs) (Nd r p s))) = set (addrs (plug ?F (Nd l z r)))"
      using DL by (auto simp: set_addrs_plug)
    then show ?thesis using body inv4 bl sdt steps tr' ty1 DL
      by (intro exI[of _ t4] exI[of _ "(DR, z, Nd u g l) # fs"] exI[of _ "Nd r p s"]
            exI[of _ "[?s0, s1]"] exI[of _ ss]) simp
  qed
qed

lemma case1_body:
  assumes inv: "fixInv t nl ((d1, p, s) # (d2, g, u) # fs) (Nd l z r)"
    and pr: "colorOf t p = Red" and ur: "rootcol (colorOf t) u = Red"
  shows "\<exists>t1. rb_insertFixupBody (Ref z) t = Some (Ref g, t1)
           \<and> fixInv t1 nl fs (plug [(d2, g, u)] (plug [(d1, p, s)] (Nd l z r)))
           \<and> sameData t t1"
proof -
  let ?F = "(d1, p, s) # (d2, g, u) # fs"
  have sh: "shapeInv t nl ?F (Nd l z r)" and ci: "colInv (colorOf t) ?F (Nd l z r)"
    using inv by (simp_all add: fixInv_def)
  note lk = shapeInv_links[OF sh]
  have ws: "wellShaped t" using shapeInv_wellShaped[OF sh] .
  have dist: "distinct (addrs (Nd l z r) @ ctx_addrs ?F)"
    using sh by (simp add: shapeInv_def)
  have nlu: "nl \<notin> set (addrs u)"
    using sh tree_at_not_nil ctx_at_not_nil unfolding shapeInv_def by fastforce
  obtain ul ua ur where u: "u = Nd ul ua ur" and ua: "colorOf t ua = Red"
    using ur by (cases u) auto
  have red_ua: "isRed t (Ref ua) = Some True"
    using isRed_root[OF lk(1) nlu] ur u by simp
  have pua: "p \<noteq> ua" using lk(14) u by simp
  let ?hole1 = "plug [(d2, g, u)] (plug [(d1, p, s)] (Nd l z r))"
  obtain t1 where c1: "rb_insertCase1 (Ref z) (Ref ua) t = Some (Ref g, t1)"
    and sd: "sameData t t1"
    and col: "colorOf t1 = (colorOf t)(p := Black, ua := Black, g := Red)"
    and sh1: "shapeInv t1 nl fs ?hole1 = shapeInv t nl fs ?hole1"
    using insertCase1_eq[OF lk(8) lk(9) ws] by blast
  have body: "rb_insertFixupBody (Ref z) t = Some (Ref g, t1)"
    unfolding rb_insertFixupBody_def
    by (cases d2) (simp_all add: lk(8,9,10,11) red_ua u pua c1 cong: bind_weak_cong)
  have "shapeInv t nl fs ?hole1"
    using shapeInv_zip[OF shapeInv_zip[OF sh]] by simp
  then have "shapeInv t1 nl fs ?hole1" using sh1 by simp
  moreover have "colInv (colorOf t1) fs ?hole1"
    using case1_colors[OF ci pr u ua dist] col by simp
  ultimately show ?thesis using body sd by (simp add: fixInv_def)
qed

lemma root_addr_plug1 [simp]: "root_addr nl (plug [(d, a, sib)] s) = a"
  by (cases d) simp_all

text \<open>One iteration of the loop.\<close>

lemma fixupBody_spec:
  assumes inv: "fixInv t nl ((d1, p, s) # (d2, g, u) # fs) (Nd l z r)"
    and pr: "colorOf t p = Red"
  shows "\<exists>t1 fs1 hole1. rb_insertFixupBody (Ref z) t = Some (Ref (root_addr nl hole1), t1)
           \<and> fixInv t1 nl fs1 hole1 \<and> sameData t t1
           \<and> set (addrs (plug fs1 hole1))
               = set (addrs (plug ((d1, p, s) # (d2, g, u) # fs) (Nd l z r)))
           \<and> (length fs1 = length fs \<or> (fs1 \<noteq> [] \<and> colorOf t1 (top_addr nl fs1) = Black))"
proof (cases "rootcol (colorOf t) u = Red")
  case True
  let ?hole1 = "plug [(d2, g, u)] (plug [(d1, p, s)] (Nd l z r))"
  obtain t1 where "rb_insertFixupBody (Ref z) t = Some (Ref g, t1)"
    "fixInv t1 nl fs ?hole1" "sameData t t1"
    using case1_body[OF inv pr True] by blast
  moreover have "set (addrs (plug fs ?hole1))
                   = set (addrs (plug ((d1, p, s) # (d2, g, u) # fs) (Nd l z r)))"
    by (cases d1; cases d2) (auto simp: set_addrs_plug)
  ultimately show ?thesis
    by (intro exI[of _ t1] exI[of _ fs] exI[of _ ?hole1]) simp
next
  case False
  then have ub: "rootcol (colorOf t) u = Black" by (cases "rootcol (colorOf t) u") auto
  show ?thesis
  proof (cases d2)
    case DL
    from case3_body_left[OF inv[unfolded DL] pr ub] show ?thesis unfolding DL by blast
  next
    case DR
    from case3_body_right[OF inv[unfolded DR] pr ub] show ?thesis unfolding DR by blast
  qed
qed

subsection \<open>The fixup loop ends\<close>

lemma fixInv_parent:
  assumes "fixInv t nl fs (Nd l z r)"
  shows "NIL t = Ref nl" "Parent (cells t z) = Ref (top_addr nl fs)"
    "fs \<noteq> [] \<Longrightarrow> top_addr nl fs \<noteq> nl"
proof -
  have sh: "shapeInv t nl fs (Nd l z r)" using assms by (simp add: fixInv_def)
  show "NIL t = Ref nl" using sh by (simp add: shapeInv_def)
  show "Parent (cells t z) = Ref (top_addr nl fs)"
    using sh by (simp add: shapeInv_def ctx_parent_top)
  have "nl \<notin> set (ctx_addrs fs)"
    using sh ctx_at_not_nil unfolding shapeInv_def by blast
  then show "fs \<noteq> [] \<Longrightarrow> top_addr nl fs \<noteq> nl"
    using top_addr_cases[of nl fs] by auto
qed

lemma fixupLoop_exit:
  assumes inv: "fixInv t nl fs (Nd l z r)"
    and top: "fs = [] \<or> colorOf t (top_addr nl fs) = Black"
  shows "rb_insertFixupLoop (Ref z) t = Some t"
proof (cases fs)
  case Nil
  then have "Parent (cells t z) = Ref nl" using fixInv_parent(2)[OF inv] by simp
  moreover have "isRed t (Ref nl) = Some False"
    using fixInv_parent(1)[OF inv] by (simp add: isRed_def)
  ultimately show ?thesis
    by (subst rb_insertFixupLoop.simps) (simp cong: bind_weak_cong)
next
  case (Cons f gs)
  then have ne: "top_addr nl fs \<noteq> nl" using fixInv_parent(3)[OF inv] by simp
  have "isRed t (Ref (top_addr nl fs)) = Some False"
    using isRed_Ref[OF fixInv_parent(1)[OF inv] ne] top Cons by simp
  then show ?thesis using fixInv_parent(2)[OF inv]
    by (subst rb_insertFixupLoop.simps) (simp cong: bind_weak_cong)
qed

lemma fixupLoop_spec:
  assumes "fixInv t nl fs hole"
  shows "\<exists>t1 fs1 hole1. rb_insertFixupLoop (Ref (root_addr nl hole)) t = Some t1
           \<and> fixInv t1 nl fs1 hole1 \<and> sameData t t1
           \<and> set (addrs (plug fs1 hole1)) = set (addrs (plug fs hole))
           \<and> (fs1 = [] \<or> colorOf t1 (top_addr nl fs1) = Black)"
  using assms
proof (induction "length fs" arbitrary: t fs hole rule: less_induct)
  case less
  note inv = less.prems
  obtain l z r where hole: "hole = Nd l z r"
    using inv by (cases hole) (auto simp: fixInv_def colInv_def)
  note invN = inv[unfolded hole]
  show ?case
  proof (cases "fs = [] \<or> colorOf t (top_addr nl fs) = Black")
    case True
    have "rb_insertFixupLoop (Ref z) t = Some t" using fixupLoop_exit[OF invN True] .
    then show ?thesis using inv True hole
      by (intro exI[of _ t] exI[of _ fs] exI[of _ hole]) simp
  next
    case False
    then obtain d1 p s fs1 where fs: "fs = (d1, p, s) # fs1" by (cases fs) auto
    have pr: "colorOf t p = Red" using False fs by (cases "colorOf t p") auto
    have ci: "colInv (colorOf t) ((d1, p, s) # fs1) (Nd l z r)"
      using invN fs by (simp add: fixInv_def)
    obtain d2 g u fs2 where fs1: "fs1 = (d2, g, u) # fs2"
      using colInv_parent_red[OF ci pr] by blast
    have inv2: "fixInv t nl ((d1, p, s) # (d2, g, u) # fs2) (Nd l z r)"
      using invN fs fs1 by simp
    have "\<exists>t1 fs3 hole1. rb_insertFixupBody (Ref z) t = Some (Ref (root_addr nl hole1), t1)
           \<and> fixInv t1 nl fs3 hole1 \<and> sameData t t1
           \<and> set (addrs (plug fs3 hole1)) = set (addrs (plug fs hole))
           \<and> (length fs3 = length fs2 \<or> (fs3 \<noteq> [] \<and> colorOf t1 (top_addr nl fs3) = Black))"
      using fixupBody_spec[OF inv2 pr] fs fs1 hole by simp
    then obtain t1 fs3 hole1 where
      body: "rb_insertFixupBody (Ref z) t = Some (Ref (root_addr nl hole1), t1)"
      and inv1: "fixInv t1 nl fs3 hole1" and sd1: "sameData t t1"
      and set1: "set (addrs (plug fs3 hole1)) = set (addrs (plug fs hole))"
      and prog: "length fs3 = length fs2 \<or> (fs3 \<noteq> [] \<and> colorOf t1 (top_addr nl fs3) = Black)"
      by blast
    have par: "Parent (cells t z) = Ref p" "p \<noteq> nl"
      using fixInv_parent(2,3)[OF invN] fs by simp_all
    have red: "isRed t (Ref p) = Some True"
      using isRed_Ref[OF fixInv_parent(1)[OF invN] par(2)] pr by simp
    have unfold: "rb_insertFixupLoop (Ref z) t
                    = rb_insertFixupLoop (Ref (root_addr nl hole1)) t1"
      by (subst rb_insertFixupLoop.simps) (simp add: par red body cong: bind_weak_cong)
    have "\<exists>t2 fs4 hole2. rb_insertFixupLoop (Ref (root_addr nl hole1)) t1 = Some t2
           \<and> fixInv t2 nl fs4 hole2 \<and> sameData t1 t2
           \<and> set (addrs (plug fs4 hole2)) = set (addrs (plug fs3 hole1))
           \<and> (fs4 = [] \<or> colorOf t2 (top_addr nl fs4) = Black)"
    proof (cases "length fs3 = length fs2")
      case True
      then have "length fs3 < length fs" using fs fs1 by simp
      from less.hyps[OF this inv1] show ?thesis .
    next
      case False
      then have top: "fs3 = [] \<or> colorOf t1 (top_addr nl fs3) = Black" using prog by simp
      obtain l1 z1 r1 where h1: "hole1 = Nd l1 z1 r1"
        using inv1 by (cases hole1) (auto simp: fixInv_def colInv_def)
      have "rb_insertFixupLoop (Ref z1) t1 = Some t1"
        using fixupLoop_exit[OF inv1[unfolded h1] top] .
      then show ?thesis using inv1 top h1
        by (intro exI[of _ t1] exI[of _ fs3] exI[of _ hole1]) simp
    qed
    then obtain t2 fs4 hole2 where
      "rb_insertFixupLoop (Ref (root_addr nl hole1)) t1 = Some t2"
      "fixInv t2 nl fs4 hole2" "sameData t1 t2"
      "set (addrs (plug fs4 hole2)) = set (addrs (plug fs3 hole1))"
      "fs4 = [] \<or> colorOf t2 (top_addr nl fs4) = Black"
      by blast
    then show ?thesis using unfold hole set1 sameData_trans[OF sd1]
      by (intro exI[of _ t2] exI[of _ fs4] exI[of _ hole2]) simp
  qed
qed

subsection \<open>The end of insertFixup\<close>

lemma rbGood_invariant: "rbGood t s \<Longrightarrow> rbInvariant t"
  unfolding rbGood_def rbInvariant_def colorOf_def
  using rbsub_noRedRed rbsub_pathBlacks_hd by blast

lemma insertFixup_spec:
  assumes inv: "fixInv t nl fs hole" and nlf: "nl < fresh t"
    and bound: "\<forall>a \<in> set (addrs (plug fs hole)). a < fresh t"
  shows "\<exists>t2 s2. rb_insertFixup (Ref (root_addr nl hole)) t = Some t2 \<and> rbGood t2 s2
           \<and> sameData t t2 \<and> set (addrs s2) = set (addrs (plug fs hole))"
proof -
  obtain t1 fs1 hole1 where
    loop: "rb_insertFixupLoop (Ref (root_addr nl hole)) t = Some t1"
    and inv1: "fixInv t1 nl fs1 hole1" and sd: "sameData t t1"
    and set1: "set (addrs (plug fs1 hole1)) = set (addrs (plug fs hole))"
    and top: "fs1 = [] \<or> colorOf t1 (top_addr nl fs1) = Black"
    using fixupLoop_spec[OF inv] by blast
  let ?S = "plug fs1 hole1"
  let ?col = "colorOf t1"
  have sh: "shapeInv t1 nl fs1 hole1" and ci: "colInv ?col fs1 hole1"
    using inv1 by (simp_all add: fixInv_def)
  have nil: "NIL t1 = Ref nl" using sh by (simp add: shapeInv_def)
  have fr: "fresh t1 = fresh t" using sd by (simp add: sameData_def)
  have tr: "tree_at (cells t1) nl (Ref nl) (Root t1) ?S"
    using sh tree_at_plug unfolding shapeInv_def by blast
  have di: "distinct (addrs ?S)"
    using sh by (simp add: shapeInv_def distinct_addrs_plug)
  have bd: "list_all (\<lambda>a. a < fresh t1) (addrs ?S)"
    using bound set1 fr by (simp add: list_all_iff)
  obtain l z r where h1: "hole1 = Nd l z r"
    using ci by (cases hole1) (auto simp: colInv_def)
  have zred: "?col z = Red" and sub1: "rbsub ?col hole1"
    and ok: "ctx_ok ?col fs1 Black (bhOf ?col hole1)"
    and rc: "ctx_rootcol ?col fs1 Black = Black"
    using ci h1 by (auto simp: colInv_def)
  have repr: "rbRepr t1 ?S"
    unfolding rbRepr_def using nil nlf fr tr di bd by auto
  show ?thesis
  proof (cases fs1)
    case Nil
    then have rt: "Root t1 = Ref z" using tr h1 by simp
    let ?u = "upd t1 z (\<lambda>n. n\<lparr>Color := Black\<rparr>)"
    let ?t2 = "pushStep (rbStep StepColorChange [] (Some (ID (cells t1 z))) [] (snapOf ?u)) ?u"
    have ws1: "wellShaped t1" using shapeInv_wellShaped[OF sh] .
    have run: "rb_insertFixup (Ref (root_addr nl hole)) t = Some ?t2"
      unfolding rb_insertFixup_def using zred
      by (simp add: loop rt set_upd colorOf_def addStep_eq ws1 cong: bind_weak_cong)
    have shape2: "shapeInv ?t2 nl [] hole1" using sh Nil by simp
    have tr2: "tree_at (cells ?t2) nl (Ref nl) (Root ?t2) hole1"
      using shape2 tree_at_plug[of "cells ?t2" nl "[]"] unfolding shapeInv_def by simp
    have repr2: "rbRepr ?t2 hole1"
      unfolding rbRepr_def using nil nlf fr tr2 di bd Nil by auto
    have zl: "z \<notin> set (addrs l)" "z \<notin> set (addrs r)" using di Nil h1 by auto
    have col2: "colorOf ?t2 = ?col(z := Black)" by simp
    have sub2: "rbsub (colorOf ?t2) hole1"
      unfolding col2 using sub1 h1 zl by simp
    have "rbGood ?t2 hole1"
      unfolding rbGood_def using repr2 sub2 h1 by (simp del: colorOf_pushStep colorOf_upd add: col2)
    moreover have "sameData t ?t2"
      using sd by (simp add: sameData_def upd_def)
    moreover have "set (addrs hole1) = set (addrs (plug fs hole))" using set1 Nil by simp
    ultimately show ?thesis using run by blast
  next
    case (Cons f gs)
    then have ne: "fs1 \<noteq> []" by simp
    have tb: "?col (top_addr nl fs1) = Black" using top ne by simp
    have ok2: "ctx_ok ?col fs1 (rootcol ?col hole1) (bhOf ?col hole1)"
      using ctx_ok_top_black[OF ok top] .
    have sub: "rbsub ?col ?S" using sub1 ok2 by (simp add: rbsub_plug)
    have rootb: "rootcol ?col ?S = Black"
      using rc ctx_rootcol_nonempty[OF ne, of ?col "rootcol ?col hole1" Black]
      by (simp add: rootcol_plug)
    have ptr: "Root t1 = Ref (root_addr nl ?S)" using tree_at_ptr[OF tr] .
    have "Color (cells t1 (root_addr nl ?S)) = Black \<or> ?S = Lf"
      using rootb by (cases ?S) (auto simp: colorOf_def)
    moreover have "?S \<noteq> Lf"
    proof
      assume "?S = Lf"
      then have "set (addrs ?S) = {}" by simp
      then show False using h1 by (simp add: set_addrs_plug)
    qed
    ultimately have cb: "Color (cells t1 (root_addr nl ?S)) = Black" by simp
    have run: "rb_insertFixup (Ref (root_addr nl hole)) t = Some t1"
      unfolding rb_insertFixup_def
      by (simp add: loop ptr cb cong: bind_weak_cong)
    have "rbGood t1 ?S" unfolding rbGood_def using repr rootb sub by simp
    then show ?thesis using run sd set1 by blast
  qed
qed

subsection \<open>The descent\<close>

lemma descend_spec:
  assumes "NIL t = Ref nl" "tree_at (cells t) nl (ctx_parent nl fs) x s"
    "ctx_at (cells t) nl (Root t) fs x" "dirOK (cells t) (Value (cells t zz)) fs"
  shows "\<exists>fs1 t1. rb_insertDescend value (Ref zz) (ctx_parent nl fs) x t
                     = Some (ctx_parent nl fs1, t1)
           \<and> cells t1 = cells t \<and> NIL t1 = NIL t \<and> Root t1 = Root t \<and> fresh t1 = fresh t
           \<and> nextID t1 = nextID t
           \<and> plug fs1 Lf = plug fs s \<and> ctx_at (cells t) nl (Root t) fs1 (Ref nl)
           \<and> dirOK (cells t) (Value (cells t zz)) fs1"
  using assms
proof (induction s arbitrary: fs x t)
  case Lf
  then have "x = NIL t" by simp
  then have "rb_insertDescend value (Ref zz) (ctx_parent nl fs) x t = Some (ctx_parent nl fs, t)"
    by (subst rb_insertDescend.simps) simp
  then show ?case using Lf by (intro exI[of _ fs] exI[of _ t]) simp
next
  case (Nd l a r)
  have x: "x = Ref a" and ne: "a \<noteq> nl" and pa: "Parent (cells t a) = ctx_parent nl fs"
    and tl: "tree_at (cells t) nl (Ref a) (Left (cells t a)) l"
    and tr: "tree_at (cells t) nl (Ref a) (Right (cells t a)) r"
    using Nd.prems(2) by simp_all
  have ws: "wellShaped t"
    using wellShapedI[OF Nd.prems(1) tree_at_plug[OF Nd.prems(2) Nd.prems(3)]] .
  let ?t1 = "pushStep (rbStep StepCompare [ArgInt value, ArgInt (Value (cells t a))]
               (Some (ID (cells t a))) [ID (cells t a)] (snapOf t)) t"
  have nil1: "NIL ?t1 = Ref nl" using Nd.prems(1) by simp
  show ?case
  proof (cases "Value (cells t zz) < Value (cells t a)")
    case True
    let ?fs = "(DL, a, r) # fs"
    have unf: "rb_insertDescend value (Ref zz) (ctx_parent nl fs) x t
                 = rb_insertDescend value (Ref zz) (ctx_parent nl ?fs) (Left (cells t a)) ?t1"
      by (subst rb_insertDescend.simps) (simp add: x ne Nd.prems(1) True addStep_eq[OF ws] cong: bind_weak_cong)
    have c: "ctx_at (cells ?t1) nl (Root ?t1) ?fs (Left (cells t a))"
      using Nd.prems(3) x ne tr pa by simp
    have d: "dirOK (cells ?t1) (Value (cells ?t1 zz)) ?fs"
      using True by (simp add: dirOK_def)
    have t: "tree_at (cells ?t1) nl (ctx_parent nl ?fs) (Left (cells t a)) l"
      using tl by simp
    from Nd.IH(1)[OF nil1 t c d] show ?thesis unfolding unf by simp
  next
    case False
    let ?fs = "(DR, a, l) # fs"
    have unf: "rb_insertDescend value (Ref zz) (ctx_parent nl fs) x t
                 = rb_insertDescend value (Ref zz) (ctx_parent nl ?fs) (Right (cells t a)) ?t1"
      by (subst rb_insertDescend.simps) (simp add: x ne Nd.prems(1) False addStep_eq[OF ws] cong: bind_weak_cong)
    have c: "ctx_at (cells ?t1) nl (Root ?t1) ?fs (Right (cells t a))"
      using Nd.prems(3) x ne tl pa by simp
    have d: "dirOK (cells ?t1) (Value (cells ?t1 zz)) ?fs"
      using False by (simp add: dirOK_def)
    have t: "tree_at (cells ?t1) nl (ctx_parent nl ?fs) (Right (cells t a)) r"
      using tr by simp
    from Nd.IH(2)[OF nil1 t c d] show ?thesis unfolding unf by simp
  qed
qed

subsection \<open>Linking the new node\<close>

lemma link_cells:
  assumes nil: "NIL t = Ref nl"
  shows "fs = [] \<Longrightarrow> \<exists>t1 ty d n hl.
            rb_insertLink v (Ref zz) (ctx_parent nl fs) t = rb_addStep ty d n hl t1
            \<and> NIL t1 = NIL t \<and> Root t1 = Ref zz \<and> fresh t1 = fresh t \<and> nextID t1 = nextID t
            \<and> cells t1 zz = (cells t zz)\<lparr>Parent := Ref nl\<rparr>
            \<and> (\<forall>k. k \<noteq> zz \<longrightarrow> cells t1 k = cells t k)"
    and "fs = (d0, a, sib) # gs \<Longrightarrow> a \<noteq> nl \<Longrightarrow> a \<noteq> zz \<Longrightarrow>
          (d0 = DL) = (Value (cells t zz) < Value (cells t a)) \<Longrightarrow>
          \<exists>t1 ty d n hl.
            rb_insertLink v (Ref zz) (ctx_parent nl fs) t = rb_addStep ty d n hl t1
            \<and> NIL t1 = NIL t \<and> Root t1 = Root t \<and> fresh t1 = fresh t \<and> nextID t1 = nextID t
            \<and> cells t1 zz = (cells t zz)\<lparr>Parent := Ref a\<rparr>
            \<and> cells t1 a = (if d0 = DL then (cells t a)\<lparr>Left := Ref zz\<rparr>
                              else (cells t a)\<lparr>Right := Ref zz\<rparr>)
            \<and> (\<forall>k. k \<noteq> zz \<longrightarrow> k \<noteq> a \<longrightarrow> cells t1 k = cells t k)"
proof -
  show "fs = [] \<Longrightarrow> \<exists>t1 ty d n hl.
            rb_insertLink v (Ref zz) (ctx_parent nl fs) t = rb_addStep ty d n hl t1
            \<and> NIL t1 = NIL t \<and> Root t1 = Ref zz \<and> fresh t1 = fresh t \<and> nextID t1 = nextID t
            \<and> cells t1 zz = (cells t zz)\<lparr>Parent := Ref nl\<rparr>
            \<and> (\<forall>k. k \<noteq> zz \<longrightarrow> cells t1 k = cells t k)"
    unfolding rb_insertLink_def
    apply (simp add: set_upd nil cong: bind_weak_cong)
    apply (intro exI conjI)
          apply (rule refl)
         apply (simp_all add: nil)
    done
  assume fs: "fs = (d0, a, sib) # gs" and a: "a \<noteq> nl" "a \<noteq> zz"
    and dir: "(d0 = DL) = (Value (cells t zz) < Value (cells t a))"
  show "\<exists>t1 ty d n hl.
            rb_insertLink v (Ref zz) (ctx_parent nl fs) t = rb_addStep ty d n hl t1
            \<and> NIL t1 = NIL t \<and> Root t1 = Root t \<and> fresh t1 = fresh t \<and> nextID t1 = nextID t
            \<and> cells t1 zz = (cells t zz)\<lparr>Parent := Ref a\<rparr>
            \<and> cells t1 a = (if d0 = DL then (cells t a)\<lparr>Left := Ref zz\<rparr>
                              else (cells t a)\<lparr>Right := Ref zz\<rparr>)
            \<and> (\<forall>k. k \<noteq> zz \<longrightarrow> k \<noteq> a \<longrightarrow> cells t1 k = cells t k)"
  proof (cases "d0 = DL")
    case True
    then have lt: "Value (cells t zz) < Value (cells t a)" using dir by simp
    show ?thesis unfolding rb_insertLink_def
      using a
      apply (simp add: set_upd nil fs lt True cong: bind_weak_cong)
      apply (intro exI conjI)
             apply (rule refl)
            apply (simp_all add: nil)
      done
  next
    case False
    then have lt: "\<not> Value (cells t zz) < Value (cells t a)" using dir by simp
    show ?thesis unfolding rb_insertLink_def
      using a
      apply (simp add: set_upd nil fs lt False cong: bind_weak_cong)
      apply (intro exI conjI)
             apply (rule refl)
            apply (simp_all add: nil)
      done
  qed
qed

lemma link_spec:
  assumes nil: "NIL t = Ref nl"
    and ctx: "ctx_at (cells t) nl (Root t) fs (Ref nl)"
    and dir: "dirOK (cells t) (Value (cells t zz)) fs"
    and zz: "zz \<notin> set (ctx_addrs fs)" "zz \<noteq> nl"
    and cell: "Left (cells t zz) = Ref nl" "Right (cells t zz) = Ref nl"
    and dist: "distinct (ctx_addrs fs)"
  shows "\<exists>t1. rb_insertLink value (Ref zz) (ctx_parent nl fs) t = Some t1
           \<and> shapeInv t1 nl fs (Nd Lf zz Lf) \<and> sameData t t1 \<and> colorOf t1 = colorOf t"
proof -
  have "\<exists>t1 ty d n hl. rb_insertLink value (Ref zz) (ctx_parent nl fs) t = rb_addStep ty d n hl t1
          \<and> shapeInv t1 nl fs (Nd Lf zz Lf) \<and> sameData t t1 \<and> colorOf t1 = colorOf t"
  proof (cases fs)
    case Nil
    obtain t1 ty d n hl where
      run: "rb_insertLink value (Ref zz) (ctx_parent nl fs) t = rb_addStep ty d n hl t1"
      and st: "NIL t1 = NIL t" "Root t1 = Ref zz" "fresh t1 = fresh t" "nextID t1 = nextID t"
      and cz: "cells t1 zz = (cells t zz)\<lparr>Parent := Ref nl\<rparr>"
      and oth: "\<forall>k. k \<noteq> zz \<longrightarrow> cells t1 k = cells t k"
      using link_cells(1)[where v = "value" and zz = zz, OF nil Nil]
      by (elim exE conjE) (rule that)
    have "shapeInv t1 nl fs (Nd Lf zz Lf)"
      unfolding shapeInv_def using Nil st nil zz cz cell by simp
    moreover have "sameData t t1"
      unfolding sameData_def
    proof (intro conjI allI)
      fix k
      show "Value (cells t1 k) = Value (cells t k)"
        using cz oth by (cases "k = zz") simp_all
      show "ID (cells t1 k) = ID (cells t k)"
        using cz oth by (cases "k = zz") simp_all
    qed (simp_all add: st)
    moreover have "colorOf t1 = colorOf t"
    proof
      fix k show "colorOf t1 k = colorOf t k"
        using cz oth by (cases "k = zz") (simp_all add: colorOf_def)
    qed
    ultimately show ?thesis using run by blast
  next
    case (Cons f gs)
    obtain d0 a sib where f: "f = (d0, a, sib)" by (cases f) auto
    have fs: "fs = (d0, a, sib) # gs" using Cons f by simp
    have ne: "a \<noteq> nl" using ctx fs by (cases d0) simp_all
    have az: "a \<noteq> zz" using zz fs by auto
    have dd: "(d0 = DL) = (Value (cells t zz) < Value (cells t a))"
      using dir fs by (simp add: dirOK_def)
    obtain t1 ty d n hl where
      run: "rb_insertLink value (Ref zz) (ctx_parent nl fs) t = rb_addStep ty d n hl t1"
      and st: "NIL t1 = NIL t" "Root t1 = Root t" "fresh t1 = fresh t" "nextID t1 = nextID t"
      and cz: "cells t1 zz = (cells t zz)\<lparr>Parent := Ref a\<rparr>"
      and ca: "cells t1 a = (if d0 = DL then (cells t a)\<lparr>Left := Ref zz\<rparr>
                              else (cells t a)\<lparr>Right := Ref zz\<rparr>)"
      and oth: "\<forall>k. k \<noteq> zz \<longrightarrow> k \<noteq> a \<longrightarrow> cells t1 k = cells t k"
      using link_cells(2)[where v = "value" and zz = zz, OF nil fs ne az dd]
      by (elim exE conjE) (rule that)
    have nsib: "a \<notin> set (addrs sib)" "zz \<notin> set (addrs sib)"
      and ngs: "a \<notin> set (ctx_addrs gs)" "zz \<notin> set (ctx_addrs gs)"
      using dist zz fs by auto
    have tsib: "tree_at (cells t1) nl par p sib = tree_at (cells t) nl par p sib" for par p
      using tree_at_cong[of sib "cells t1" "cells t" nl par p] oth nsib by metis
    have tgs: "ctx_at (cells t1) nl rt gs p = ctx_at (cells t) nl rt gs p" for rt p
      using ctx_at_cong[of gs "cells t1" "cells t" nl rt p] oth ngs by metis
    have c1: "ctx_at (cells t1) nl (Root t1) fs (Ref zz)"
      using ctx fs st ca tsib tgs by (cases d0) simp_all
    have t1: "tree_at (cells t1) nl (ctx_parent nl fs) (Ref zz) (Nd Lf zz Lf)"
      using fs cz cell zz by simp
    have "shapeInv t1 nl fs (Nd Lf zz Lf)"
      unfolding shapeInv_def using st nil c1 t1 dist zz by simp
    moreover have "sameData t t1"
      unfolding sameData_def
    proof (intro conjI allI)
      fix k
      show "Value (cells t1 k) = Value (cells t k)"
        using cz ca oth by (cases "k = zz"; cases "k = a") simp_all
      show "ID (cells t1 k) = ID (cells t k)"
        using cz ca oth by (cases "k = zz"; cases "k = a") simp_all
    qed (simp_all add: st)
    moreover have "colorOf t1 = colorOf t"
    proof
      fix k show "colorOf t1 k = colorOf t k"
        using cz ca oth by (cases "k = zz"; cases "k = a") (simp_all add: colorOf_def)
    qed
    ultimately show ?thesis using run by blast
  qed
  then obtain t1 ty d n hl where
    run: "rb_insertLink value (Ref zz) (ctx_parent nl fs) t = rb_addStep ty d n hl t1"
    and sh: "shapeInv t1 nl fs (Nd Lf zz Lf)" and sd: "sameData t t1"
    and col: "colorOf t1 = colorOf t"
    by blast
  let ?t2 = "pushStep (rbStep ty d n hl (snapOf t1)) t1"
  have "rb_insertLink value (Ref zz) (ctx_parent nl fs) t = Some ?t2"
    using run addStep_eq[OF shapeInv_wellShaped[OF sh]] by simp
  moreover have "sameData t ?t2" using sameData_trans[OF sd sameData_pushStep] .
  ultimately show ?thesis using sh col by (intro exI[of _ ?t2]) simp
qed

subsection \<open>Insert maintains the invariant\<close>

lemma rootcol_cong:
  "(\<And>k. k \<in> set (addrs s) \<Longrightarrow> col1 k = col k) \<Longrightarrow> rootcol col1 s = rootcol col s"
  by (cases s) auto

lemma bhOf_cong:
  "(\<And>k. k \<in> set (addrs s) \<Longrightarrow> col1 k = col k) \<Longrightarrow> bhOf col1 s = bhOf col s"
  by (induction s) auto

lemma rbsub_cong:
  "(\<And>k. k \<in> set (addrs s) \<Longrightarrow> col1 k = col k) \<Longrightarrow> rbsub col1 s = rbsub col s"
proof (induction s)
  case Lf
  then show ?case by simp
next
  case (Nd l a r)
  have "rbsub col1 l = rbsub col l" "rbsub col1 r = rbsub col r"
    "bhOf col1 l = bhOf col l" "bhOf col1 r = bhOf col r"
    "rootcol col1 l = rootcol col l" "rootcol col1 r = rootcol col r" "col1 a = col a"
    using Nd bhOf_cong[of l col1 col] bhOf_cong[of r col1 col]
      rootcol_cong[of l col1 col] rootcol_cong[of r col1 col] by auto
  then show ?case by simp
qed

lemma set_keys: "set (keys h s) = (\<lambda>a. Value (h a)) ` set (addrs s)"
  by (induction s) auto

lemma insertNode_spec:
  assumes good: "rbGood t S"
  shows "\<exists>nl t1 fs. rb_insertNode value t = Some (Ref (fresh t), t1)
           \<and> fixInv t1 nl fs (Nd Lf (fresh t) Lf) \<and> nl < fresh t1 \<and> fresh t1 = Suc (fresh t)
           \<and> set (addrs (plug fs (Nd Lf (fresh t) Lf))) = insert (fresh t) (set (addrs S))
           \<and> Value (cells t1 (fresh t)) = value
           \<and> (\<forall>k. k \<noteq> fresh t \<longrightarrow> Value (cells t1 k) = Value (cells t k))"
proof -
  obtain nl where nil: "NIL t = Ref nl" and nlf: "nl < fresh t"
    and tr: "tree_at (cells t) nl (Ref nl) (Root t) S"
    and di: "distinct (addrs S)" and bd: "\<forall>a \<in> set (addrs S). a < fresh t"
    using good unfolding rbGood_def rbRepr_def by (auto simp: list_all_iff)
  have rb: "rootcol (colorOf t) S = Black" and sub: "rbsub (colorOf t) S"
    using good by (simp_all add: rbGood_def)
  let ?zz = "fresh t"
  let ?N = "\<lparr>ID = nextID t, Value = value, Color = Red,
              Left = Ref nl, Right = Ref nl, Parent = Ref nl\<rparr>"
  have zS: "?zz \<notin> set (addrs S)" using bd by auto
  have znl: "?zz \<noteq> nl" using nlf by simp
  obtain tA where new: "rb_newNode value (rb_clearSteps t) = (Ref ?zz, tA)"
    and cA: "cells tA = (cells t)(?zz := ?N)"
    and stA: "NIL tA = Ref nl" "Root tA = Root t" "fresh tA = Suc ?zz"
    by (simp add: rb_newNode_def rb_clearSteps_def nil)
  have cz: "cells tA ?zz = ?N" using cA by simp
  have oth: "k \<noteq> ?zz \<Longrightarrow> cells tA k = cells t k" for k using cA by simp
  have trA: "tree_at (cells tA) nl (Ref nl) (Root tA) S"
    using tree_at_cong[of S "cells tA" "cells t" nl "Ref nl" "Root t"] oth zS tr stA
    by (simp, metis)
  have wsA: "wellShaped tA" using wellShapedI[OF stA(1) trA] .
  let ?tB = "pushStep (rbStep StepInsert [ArgInt value] (Some (ID (cells tA ?zz))) []
               (snapOf tA)) tA"
  have trB: "tree_at (cells ?tB) nl (ctx_parent nl []) (Root ?tB) S"
    using trA by simp
  have "\<exists>fs1 t1. rb_insertDescend value (Ref ?zz) (ctx_parent nl []) (Root ?tB) ?tB
                     = Some (ctx_parent nl fs1, t1)
           \<and> cells t1 = cells ?tB \<and> NIL t1 = NIL ?tB \<and> Root t1 = Root ?tB
           \<and> fresh t1 = fresh ?tB \<and> nextID t1 = nextID ?tB
           \<and> plug fs1 Lf = plug [] S \<and> ctx_at (cells ?tB) nl (Root ?tB) fs1 (Ref nl)
           \<and> dirOK (cells ?tB) (Value (cells ?tB ?zz)) fs1"
    by (rule descend_spec[OF _ trB]) (simp_all add: stA dirOK_def)
  then obtain fs tC where
    desc: "rb_insertDescend value (Ref ?zz) (Ref nl) (Root t) ?tB = Some (ctx_parent nl fs, tC)"
    and cC: "cells tC = cells tA" and stC: "NIL tC = Ref nl" "Root tC = Root t"
      "fresh tC = Suc ?zz"
    and pl: "plug fs Lf = S"
    and ctxC: "ctx_at (cells tC) nl (Root tC) fs (Ref nl)"
    and dirC: "dirOK (cells tC) (Value (cells tC ?zz)) fs"
    by (auto simp: stA)
  have setS: "set (ctx_addrs fs) = set (addrs S)"
    using set_addrs_plug[of fs Lf] pl by simp
  have dfs: "distinct (ctx_addrs fs)"
    using distinct_addrs_plug[of fs Lf] pl di by simp
  have "\<exists>t1. rb_insertLink value (Ref ?zz) (ctx_parent nl fs) tC = Some t1
           \<and> shapeInv t1 nl fs (Nd Lf ?zz Lf) \<and> sameData tC t1 \<and> colorOf t1 = colorOf tC"
    by (rule link_spec[OF stC(1) ctxC dirC]) (simp_all add: setS zS znl cC cz dfs)
  then obtain tD where
    link: "rb_insertLink value (Ref ?zz) (ctx_parent nl fs) tC = Some tD"
    and shD: "shapeInv tD nl fs (Nd Lf ?zz Lf)" and sdD: "sameData tC tD"
    and colD: "colorOf tD = colorOf tC"
    by blast
  have colz: "colorOf tD ?zz = Red" and colo: "k \<noteq> ?zz \<Longrightarrow> colorOf tD k = colorOf t k" for k
    using colD cC cA by (simp_all add: colorOf_def)
  have subD: "rbsub (colorOf tD) S"
    using rbsub_cong[of S "colorOf tD" "colorOf t"] colo zS sub by metis
  have rbD: "rootcol (colorOf tD) S = Black"
    using rootcol_cong[of S "colorOf tD" "colorOf t"] colo zS rb by metis
  have okD: "ctx_ok (colorOf tD) fs Black 0"
    using subD rbsub_plug[of "colorOf tD" fs Lf] pl by simp
  have rcD: "ctx_rootcol (colorOf tD) fs Black = Black"
    using rbD rootcol_plug[of "colorOf tD" fs Lf] pl by simp
  have "colInv (colorOf tD) fs (Nd Lf ?zz Lf)"
    unfolding colInv_def using colz okD rcD by simp
  then have fx: "fixInv tD nl fs (Nd Lf ?zz Lf)" using shD by (simp add: fixInv_def)
  have frD: "fresh tD = Suc ?zz" using sdD stC by (simp add: sameData_def)
  have run: "rb_insertNode value t = Some (Ref ?zz, tD)"
    unfolding rb_insertNode_def
    by (simp add: new stA desc link addStep_eq[OF wsA] cong: bind_weak_cong)
  have "set (addrs (plug fs (Nd Lf ?zz Lf))) = insert ?zz (set (addrs S))"
    by (simp add: set_addrs_plug setS)
  moreover have "Value (cells tD k) = (if k = ?zz then value else Value (cells t k))" for k
    using sdD cC cA by (simp add: sameData_def)
  ultimately show ?thesis using run fx frD nlf
    by (intro exI[of _ nl] exI[of _ tD] exI[of _ fs]) simp
qed

lemma rbGood_pushStep: "rbGood t s \<Longrightarrow> rbGood (pushStep st t) s"
  by (simp add: rbGood_def rbRepr_def)

lemma rbGood_wellShaped: "rbGood t s \<Longrightarrow> wellShaped t"
  unfolding rbGood_def rbRepr_def using wellShapedI by blast

lemma RB_Insert_spec:
  assumes good: "rbGood t S"
  shows "\<exists>res t1 S1. RB_Insert value t = Some (res, t1) \<and> rbGood t1 S1
           \<and> set (keys (cells t1) S1) = insert value (set (keys (cells t) S))"
proof -
  obtain nl tA fs where node: "rb_insertNode value t = Some (Ref (fresh t), tA)"
    and fx: "fixInv tA nl fs (Nd Lf (fresh t) Lf)" and nlf: "nl < fresh tA"
    and fr: "fresh tA = Suc (fresh t)"
    and setA: "set (addrs (plug fs (Nd Lf (fresh t) Lf))) = insert (fresh t) (set (addrs S))"
    and vz: "Value (cells tA (fresh t)) = value"
    and vo: "\<forall>k. k \<noteq> fresh t \<longrightarrow> Value (cells tA k) = Value (cells t k)"
    using insertNode_spec[OF good, of "value"] by blast
  have bd: "\<forall>a \<in> set (addrs S). a < fresh t"
    using good unfolding rbGood_def rbRepr_def by (auto simp: list_all_iff)
  have bdA: "\<forall>a \<in> set (addrs (plug fs (Nd Lf (fresh t) Lf))). a < fresh tA"
    unfolding setA fr using bd by auto
  obtain tB S1 where fixup: "rb_insertFixup (Ref (fresh t)) tA = Some tB"
    and goodB: "rbGood tB S1"
    and setB: "set (addrs S1) = set (addrs (plug fs (Nd Lf (fresh t) Lf)))"
    and sdB: "sameData tA tB"
    using insertFixup_spec[OF fx nlf bdA] by auto
  have wsB: "wellShaped tB" using rbGood_wellShaped[OF goodB] .
  let ?tC = "pushStep (rbStep StepComplete [] None [] (snapOf tB)) tB"
  have goodC: "rbGood ?tC S1" using rbGood_pushStep[OF goodB] .
  obtain nl1 where "NIL ?tC = Ref nl1" "tree_at (cells ?tC) nl1 (Ref nl1) (Root ?tC) S1"
    using goodC unfolding rbGood_def rbRepr_def by blast
  then obtain snap where snap: "rb_getTreeSnapshot ?tC = Some snap"
    unfolding rb_getTreeSnapshot_def using snapshot_Some by blast
  have "RB_Insert value t = Some (\<lparr>Success = True, Message = None, Steps = rbSteps ?tC,
            FinalTree = snap, FinalGraph = None\<rparr>, ?tC)"
    unfolding RB_Insert_def by (simp add: node fixup snap addStep_eq[OF wsB] cong: bind_weak_cong)
  moreover have "set (keys (cells ?tC) S1) = insert value (set (keys (cells t) S))"
  proof -
    have v: "Value (cells ?tC k) = (if k = fresh t then value else Value (cells t k))" for k
      using sdB vz vo by (simp add: sameData_def)
    have nz: "fresh t \<notin> set (addrs S)" using bd by auto
    have "(\<lambda>a. Value (cells ?tC a)) ` set (addrs S) = (\<lambda>a. Value (cells t a)) ` set (addrs S)"
    proof (rule image_cong)
      fix a assume "a \<in> set (addrs S)"
      then have "a \<noteq> fresh t" using nz by auto
      then show "Value (cells ?tC a) = Value (cells t a)" using v[of a] by simp
    qed simp
    moreover have "Value (cells ?tC (fresh t)) = value" using v[of "fresh t"] by simp
    ultimately show ?thesis unfolding set_keys setB setA by simp
  qed
  ultimately show ?thesis using goodC by blast
qed

lemma rbGood_New: "rbGood NewRedBlackTree Lf"
  by (simp add: rbGood_def rbRepr_def NewRedBlackTree_def)

lemma insertAll_spec:
  "rbGood t S \<Longrightarrow> \<exists>t1 S1. rb_insertAll ks t = Some t1 \<and> rbGood t1 S1
      \<and> set (keys (cells t1) S1) = set ks \<union> set (keys (cells t) S)"
proof (induction ks arbitrary: t S)
  case Nil
  then show ?case by auto
next
  case (Cons k ks)
  obtain res t1 S1 where r: "RB_Insert k t = Some (res, t1)" "rbGood t1 S1"
    "set (keys (cells t1) S1) = insert k (set (keys (cells t) S))"
    using RB_Insert_spec[OF Cons.prems, of k] by blast
  then obtain t2 S2 where "rb_insertAll ks t1 = Some t2" "rbGood t2 S2"
    "set (keys (cells t2) S2) = set ks \<union> set (keys (cells t1) S1)"
    using Cons.IH[of t1 S1] by blast
  then show ?case using r by (intro exI[of _ t2] exI[of _ S2]) auto
qed

text \<open>
  C2: every sequence of calls of \<open>Insert\<close> on an initially empty red-black tree returns, and
  in the tree it leaves the root is black, no red node has a red child, and every path from
  the root down to an empty position passes through the same number of black nodes. The
  sequence is arbitrary, so this holds after each of its calls.
\<close>

theorem rb_inserts_invariant:
  "\<exists>t. rb_insertAll ks NewRedBlackTree = Some t \<and> rbInvariant t"
  using insertAll_spec[OF rbGood_New] rbGood_invariant by blast

theorem rb_inserts_invariant_witness:
  "\<exists>t. rb_insertAll [10, 20, 30] NewRedBlackTree = Some t \<and> rbInvariant t
       \<and> getValue t (Root t) = Some 20 \<and> getColor t (Root t) = Some Black"
proof -
  obtain t where t: "rb_insertAll [10, 20, 30] NewRedBlackTree = Some t"
    and inv: "rbInvariant t"
    using rb_inserts_invariant[of "[10, 20, 30]"] by blast
  have "map_option (\<lambda>t. (getValue t (Root t), getColor t (Root t)))
          (rb_insertAll [10, 20, 30] NewRedBlackTree) = Some (Some 20, Some Black)"
    by code_simp
  then show ?thesis using t inv by simp
qed

section \<open>Delete of an absent key\<close>

lemma searchNode_absent:
  assumes "NIL t = Ref nl" "tree_at (cells t) nl par p s" "value \<notin> set (keys (cells t) s)"
  shows "rb_searchNode value p t = Some (Ref nl)"
  using assms
proof (induction s arbitrary: par p)
  case Lf
  then show ?case by (subst rb_searchNode.simps) simp
next
  case (Nd l a r)
  have p: "p = Ref a" "a \<noteq> nl" "Value (cells t a) \<noteq> value" using Nd.prems by auto
  have l: "rb_searchNode value (Left (cells t a)) t = Some (Ref nl)"
    using Nd.IH(1)[OF Nd.prems(1), of "Ref a" "Left (cells t a)"] Nd.prems by simp
  have r: "rb_searchNode value (Right (cells t a)) t = Some (Ref nl)"
    using Nd.IH(2)[OF Nd.prems(1), of "Ref a" "Right (cells t a)"] Nd.prems by simp
  show ?case using p l r Nd.prems(1)
    by (subst rb_searchNode.simps) auto
qed

lemma rb_delete_absent:
  assumes repr: "rbRepr t S" and absent: "value \<notin> set (keys (cells t) S)"
  shows "\<exists>res t1 snap. RB_Delete value t = Some (res, t1)
           \<and> \<not> Success res \<and> Message res = Some [ArgInt value]
           \<and> map Type (Steps res) = [StepNotFound]
           \<and> Root t1 = Root t \<and> NIL t1 = NIL t \<and> cells t1 = cells t
           \<and> nextID t1 = nextID t \<and> fresh t1 = fresh t
           \<and> rb_getTreeSnapshot t = Some snap \<and> FinalTree res = snap
           \<and> rb_getTreeSnapshot t1 = Some snap"
proof -
  obtain nl where nil: "NIL t = Ref nl" and tr: "tree_at (cells t) nl (Ref nl) (Root t) S"
    using repr unfolding rbRepr_def by blast
  let ?t0 = "rb_clearSteps t"
  let ?t1 = "pushStep (rbStep StepNotFound [ArgInt value] None [] (snapOf ?t0)) ?t0"
  have st0: "NIL ?t0 = NIL t" "cells ?t0 = cells t" "Root ?t0 = Root t" "rbSteps ?t0 = []"
    "nextID ?t0 = nextID t" "fresh ?t0 = fresh t"
    by (simp_all add: rb_clearSteps_def)
  have st1: "NIL ?t1 = NIL t" "cells ?t1 = cells t" "Root ?t1 = Root t"
    "nextID ?t1 = nextID t" "fresh ?t1 = fresh t"
    by (simp_all add: st0)
  have ws0: "wellShaped ?t0"
    using wellShapedI[of ?t0 nl "Ref nl" S] nil tr by (simp add: st0)
  have srch: "rb_searchNode value (Root ?t0) ?t0 = Some (NIL ?t0)"
    using searchNode_absent[of ?t0 nl "Ref nl" "Root ?t0" S "value"] nil tr absent
    by (simp add: st0)
  obtain snap where snap: "rb_getTreeSnapshot t = Some snap"
    unfolding rb_getTreeSnapshot_def using snapshot_Some[OF nil tr] by blast
  have snap1: "rb_getTreeSnapshot ?t1 = Some snap"
    using snap snapshot_cong[OF st1(1,2) nil tr] unfolding rb_getTreeSnapshot_def
    by (simp only: st1(3))
  have "RB_Delete value t = Some (\<lparr>Success = False, Message = Some [ArgInt value],
           Steps = rbSteps ?t1, FinalTree = snap, FinalGraph = None\<rparr>, ?t1)"
    unfolding RB_Delete_def
    by (simp add: srch snap1 st0(1) addStep_eq[OF ws0] cong: bind_weak_cong)
  moreover have "map Type (rbSteps ?t1) = [StepNotFound]"
    by (simp add: st0)
  ultimately show ?thesis using snap snap1 st1
    by (intro exI[of _ "\<lparr>Success = False, Message = Some [ArgInt value],
           Steps = rbSteps ?t1, FinalTree = snap, FinalGraph = None\<rparr>"] exI[of _ ?t1]
           exI[of _ snap]) simp
qed

lemma avl_found_present: "avl_found n v \<Longrightarrow> v \<in> set (avl_values n)"
  by (induction n) (auto split: if_splits)

lemma avl_delete_absent:
  assumes "value \<notin> set (avl_values (avlRoot a))"
  shows "\<exists>res a1. AVL_Delete value a = Some (res, a1)
           \<and> \<not> Success res \<and> Message res = Some [ArgInt value]
           \<and> map Type (Steps res) = [StepDelete, StepNotFound]
           \<and> avlRoot a1 = avlRoot a \<and> avlNextID a1 = avlNextID a
           \<and> FinalTree res = avl_getTreeSnapshot a
           \<and> avl_getTreeSnapshot a1 = avl_getTreeSnapshot a"
proof -
  have "\<not> avl_found (avlRoot a) value" using assms avl_found_present by blast
  then show ?thesis
    by (simp add: AVL_Delete_def Let_def avl_addStep_def avl_clearSteps_def
        avl_getTreeSnapshot_def treeStep_def)
qed

text \<open>
  C7: \<open>Delete\<close> of a key that is not in the tree. For a red-black state that represents a
  tree and for an AVL tree, the call returns \<open>Success = False\<close> with the message formatted
  from the key, its trace ends in a Not-Found step (it is the only step for the red-black
  tree, and follows the opening Delete step for the AVL tree), the root, the nodes and the
  counters are the ones before the call, and the snapshot in the result is the snapshot of
  the tree before the call. Only the buffer of steps, reset at the start of every
  operation, differs.
\<close>

theorem delete_absent_unchanged:
  "(rbRepr t S \<longrightarrow> value \<notin> set (keys (cells t) S) \<longrightarrow>
      (\<exists>res t1 snap. RB_Delete value t = Some (res, t1)
           \<and> \<not> Success res \<and> Message res = Some [ArgInt value]
           \<and> map Type (Steps res) = [StepNotFound]
           \<and> Root t1 = Root t \<and> NIL t1 = NIL t \<and> cells t1 = cells t
           \<and> nextID t1 = nextID t \<and> fresh t1 = fresh t
           \<and> rb_getTreeSnapshot t = Some snap \<and> FinalTree res = snap
           \<and> rb_getTreeSnapshot t1 = Some snap))
   \<and> (value \<notin> set (avl_values (avlRoot a)) \<longrightarrow>
      (\<exists>res a1. AVL_Delete value a = Some (res, a1)
           \<and> \<not> Success res \<and> Message res = Some [ArgInt value]
           \<and> map Type (Steps res) = [StepDelete, StepNotFound]
           \<and> avlRoot a1 = avlRoot a \<and> avlNextID a1 = avlNextID a
           \<and> FinalTree res = avl_getTreeSnapshot a
           \<and> avl_getTreeSnapshot a1 = avl_getTreeSnapshot a))"
  using rb_delete_absent[of t S "value"] avl_delete_absent[of "value" a] by blast

theorem delete_absent_unchanged_witness:
  "(case rb_insertAll [10, 20, 30] NewRedBlackTree of None \<Rightarrow> False
    | Some t \<Rightarrow>
        (\<exists>res t1 snap. RB_Delete 15 t = Some (res, t1)
           \<and> \<not> Success res \<and> map Type (Steps res) = [StepNotFound]
           \<and> Root t1 = Root t \<and> cells t1 = cells t
           \<and> rb_getTreeSnapshot t = Some snap \<and> FinalTree res = snap))
   \<and> (case avl_insertAll [10, 20, 30] NewAVLTree of None \<Rightarrow> False
      | Some a \<Rightarrow>
        (\<exists>res a1. AVL_Delete 15 a = Some (res, a1)
           \<and> \<not> Success res \<and> map Type (Steps res) = [StepDelete, StepNotFound]
           \<and> avlRoot a1 = avlRoot a \<and> FinalTree res = avl_getTreeSnapshot a))"
proof -
  obtain t S where t: "rb_insertAll [10, 20, 30] NewRedBlackTree = Some t"
    and good: "rbGood t S" and ks: "set (keys (cells t) S) = set [10, 20, 30] \<union> {}"
    using insertAll_spec[OF rbGood_New, of "[10, 20, 30]"] by auto
  have "map_option (\<lambda>a. avl_values (avlRoot a)) (avl_insertAll [10, 20, 30] NewAVLTree)
          = Some [10, 20, 30]"
    by code_simp
  then obtain a where a: "avl_insertAll [10, 20, 30] NewAVLTree = Some a"
    and av: "avl_values (avlRoot a) = [10, 20, 30]"
    by auto
  have r: "rbRepr t S" using good by (simp add: rbGood_def)
  have k: "(15::int) \<notin> set (keys (cells t) S)" unfolding ks by simp
  have k2: "(15::int) \<notin> set (avl_values (avlRoot a))" unfolding av by simp
  have both: "(\<exists>res t1 snap. RB_Delete 15 t = Some (res, t1)
           \<and> \<not> Success res \<and> Message res = Some [ArgInt 15]
           \<and> map Type (Steps res) = [StepNotFound]
           \<and> Root t1 = Root t \<and> NIL t1 = NIL t \<and> cells t1 = cells t
           \<and> nextID t1 = nextID t \<and> fresh t1 = fresh t
           \<and> rb_getTreeSnapshot t = Some snap \<and> FinalTree res = snap
           \<and> rb_getTreeSnapshot t1 = Some snap)
        \<and> (\<exists>res a1. AVL_Delete 15 a = Some (res, a1)
           \<and> \<not> Success res \<and> Message res = Some [ArgInt 15]
           \<and> map Type (Steps res) = [StepDelete, StepNotFound]
           \<and> avlRoot a1 = avlRoot a \<and> avlNextID a1 = avlNextID a
           \<and> FinalTree res = avl_getTreeSnapshot a
           \<and> avl_getTreeSnapshot a1 = avl_getTreeSnapshot a)"
    using delete_absent_unchanged[of t S 15 a] r k k2 by simp
  have "\<exists>res t1 snap. RB_Delete 15 t = Some (res, t1)
           \<and> \<not> Success res \<and> map Type (Steps res) = [StepNotFound]
           \<and> Root t1 = Root t \<and> cells t1 = cells t
           \<and> rb_getTreeSnapshot t = Some snap \<and> FinalTree res = snap"
    using conjunct1[OF both] by (elim exE conjE) (intro exI conjI)
  moreover have "\<exists>res a1. AVL_Delete 15 a = Some (res, a1)
           \<and> \<not> Success res \<and> map Type (Steps res) = [StepDelete, StepNotFound]
           \<and> avlRoot a1 = avlRoot a \<and> FinalTree res = avl_getTreeSnapshot a"
    using conjunct2[OF both] by (elim exE conjE) (intro exI conjI)
  ultimately show ?thesis unfolding t a by (simp only: option.case simp_thms)
qed


section \<open>The order of recoloring and rotation in the trace\<close>

lemma case3Trace_cases:
  assumes "case3Trace ss rot pid gid gpar"
  obtains s1 s2 s3 where "ss = [s1, s2, s3]"
    "Type s1 = StepRebalance" "Type s2 = StepColorChange" "Type s3 = rot"
    "snapHas (TreeState s1) pid Red (Some gid)" "snapHas (TreeState s1) gid Black gpar"
    "snapHas (TreeState s2) pid Black (Some gid)" "snapHas (TreeState s2) gid Red gpar"
    "snapHas (TreeState s3) pid Black gpar" "snapHas (TreeState s3) gid Red (Some pid)"
  using assms unfolding case3Trace_def by (auto split: list.splits)

lemma case3_reads:
  assumes sh: "shapeInv t nl ((d1, p, s) # (d2, g, u) # fs) (Nd l z r)"
    and ub: "rootcol (colorOf t) u = Black"
  shows "rb_parentIsLeft t (Ref z) = Some (d2 = DL)"
    "rb_isInner t (Ref z) = Some (d1 \<noteq> d2)"
    "rb_uncle t (Ref z) = Some (Ref (root_addr nl u))"
    "isRed t (Ref (root_addr nl u)) = Some False"
proof -
  note lk = shapeInv_links[OF sh]
  have nlu: "nl \<notin> set (addrs u)"
    using sh tree_at_not_nil ctx_at_not_nil unfolding shapeInv_def by fastforce
  show "isRed t (Ref (root_addr nl u)) = Some False"
    using isRed_root[OF lk(1) nlu] ub by simp
  have pu: "p \<noteq> root_addr nl u" using lk(14) by simp
  show pl: "rb_parentIsLeft t (Ref z) = Some (d2 = DL)"
    using pu by (cases d2) (simp_all add: rb_parentIsLeft_def lk(8,9,10))
  show "rb_uncle t (Ref z) = Some (Ref (root_addr nl u))"
    using pu by (cases d2) (simp_all add: rb_uncle_def lk(8,9,10,11))
  have zs: "z \<noteq> root_addr nl s" using lk(17) by simp
  show "rb_isInner t (Ref z) = Some (d1 \<noteq> d2)"
    using zs by (cases d1; cases d2) (simp_all add: rb_isInner_def pl lk(8,12,13))
qed

text \<open>
  C9. Consider an iteration of the insert-fixup loop: \<open>z\<close> is the root of a subtree below
  its red parent \<open>p\<close>, itself a child of the grandparent \<open>g\<close> (on the side \<open>d2\<close>, \<open>z\<close> being on
  the side \<open>d1\<close> of \<open>p\<close>), the invariant \<open>fixInv\<close> of the loop holds, and the uncle is black.
  The code then reads this situation as stated (parent on the left or right, \<open>z\<close> an inner
  child exactly when the two sides differ, uncle not red), the iteration returns, and it
  appends to the trace: for an inner child a Rebalance step and the rotation at the parent
  (Case 2); then, in this order, the Rebalance step of Case 3, the Color-Change step and
  the rotation at the grandparent. The snapshots in these three steps show that the tree is
  transformed in the same order. Writing \<open>pid\<close> for the id of the parent when Case 3 starts
  (\<open>p\<close>, or \<open>z\<close> after Case 2), \<open>gid\<close> for the id of \<open>g\<close> and \<open>above\<close> for the id of the node
  above \<open>g\<close>: in the Rebalance step the parent is red below the black grandparent; in the
  Color-Change step the parent is black and still below the grandparent, now red, so the
  recoloring is done and the rotation is not; in the rotation step the grandparent, red,
  is below the black parent, which has taken its place.
\<close>

theorem insertFixup_case3_order:
  assumes inv: "fixInv t nl ((d1, p, s) # (d2, g, u) # fs) (Nd l z r)"
    and pr: "colorOf t p = Red" and ub: "rootcol (colorOf t) u = Black"
  shows "\<exists>z1 t1 pre s1 s2 s3.
           rb_parentIsLeft t (Ref z) = Some (d2 = DL)
         \<and> rb_isInner t (Ref z) = Some (d1 \<noteq> d2)
         \<and> rb_uncle t (Ref z) = Some (Ref (root_addr nl u))
         \<and> isRed t (Ref (root_addr nl u)) = Some False
         \<and> rb_insertFixupBody (Ref z) t = Some (z1, t1)
         \<and> rbSteps t1 = rbSteps t @ pre @ [s1, s2, s3]
         \<and> map Type pre =
             (if d1 = d2 then []
              else [StepRebalance, if d2 = DL then StepRotateLeft else StepRotateRight])
         \<and> Type s1 = StepRebalance \<and> Type s2 = StepColorChange
         \<and> Type s3 = (if d2 = DL then StepRotateRight else StepRotateLeft)
         \<and> (let pid = ID (cells t (if d1 = d2 then p else z));
                 gid = ID (cells t g); above = topID t fs
             in snapHas (TreeState s1) pid Red (Some gid)
              \<and> snapHas (TreeState s1) gid Black above
              \<and> snapHas (TreeState s2) pid Black (Some gid)
              \<and> snapHas (TreeState s2) gid Red above
              \<and> snapHas (TreeState s3) pid Black above
              \<and> snapHas (TreeState s3) gid Red (Some pid))"
proof -
  have sh: "shapeInv t nl ((d1, p, s) # (d2, g, u) # fs) (Nd l z r)"
    using inv by (simp add: fixInv_def)
  note rd = case3_reads[OF sh ub]
  show ?thesis
  proof (cases d2)
    case DL
    obtain t1 hole1 pre ss where
      body: "rb_insertFixupBody (Ref z) t = Some (Ref (root_addr nl hole1), t1)"
      and st: "rbSteps t1 = rbSteps t @ pre @ ss"
      and pre: "map Type pre = (if d1 = DL then [] else [StepRebalance, StepRotateLeft])"
      and tr: "case3Trace ss StepRotateRight (ID (cells t (if d1 = DL then p else z)))
                 (ID (cells t g)) (topID t fs)"
      using case3_body_left[OF inv[unfolded DL] pr ub] by (elim exE conjE) (rule that)
    from tr obtain s1 s2 s3 where ss: "ss = [s1, s2, s3]"
      and e: "Type s1 = StepRebalance" "Type s2 = StepColorChange" "Type s3 = StepRotateRight"
        "snapHas (TreeState s1) (ID (cells t (if d1 = DL then p else z))) Red (Some (ID (cells t g)))"
        "snapHas (TreeState s1) (ID (cells t g)) Black (topID t fs)"
        "snapHas (TreeState s2) (ID (cells t (if d1 = DL then p else z))) Black (Some (ID (cells t g)))"
        "snapHas (TreeState s2) (ID (cells t g)) Red (topID t fs)"
        "snapHas (TreeState s3) (ID (cells t (if d1 = DL then p else z))) Black (topID t fs)"
        "snapHas (TreeState s3) (ID (cells t g)) Red
           (Some (ID (cells t (if d1 = DL then p else z))))"
      by (rule case3Trace_cases)
    show ?thesis
      unfolding Let_def
      apply (rule exI[of _ "Ref (root_addr nl hole1)"], rule exI[of _ t1], rule exI[of _ pre],
             rule exI[of _ s1], rule exI[of _ s2], rule exI[of _ s3])
      using rd body st pre e unfolding ss DL by simp
  next
    case DR
    obtain t1 hole1 pre ss where
      body: "rb_insertFixupBody (Ref z) t = Some (Ref (root_addr nl hole1), t1)"
      and st: "rbSteps t1 = rbSteps t @ pre @ ss"
      and pre: "map Type pre = (if d1 = DR then [] else [StepRebalance, StepRotateRight])"
      and tr: "case3Trace ss StepRotateLeft (ID (cells t (if d1 = DR then p else z)))
                 (ID (cells t g)) (topID t fs)"
      using case3_body_right[OF inv[unfolded DR] pr ub] by (elim exE conjE) (rule that)
    from tr obtain s1 s2 s3 where ss: "ss = [s1, s2, s3]"
      and e: "Type s1 = StepRebalance" "Type s2 = StepColorChange" "Type s3 = StepRotateLeft"
        "snapHas (TreeState s1) (ID (cells t (if d1 = DR then p else z))) Red (Some (ID (cells t g)))"
        "snapHas (TreeState s1) (ID (cells t g)) Black (topID t fs)"
        "snapHas (TreeState s2) (ID (cells t (if d1 = DR then p else z))) Black (Some (ID (cells t g)))"
        "snapHas (TreeState s2) (ID (cells t g)) Red (topID t fs)"
        "snapHas (TreeState s3) (ID (cells t (if d1 = DR then p else z))) Black (topID t fs)"
        "snapHas (TreeState s3) (ID (cells t g)) Red
           (Some (ID (cells t (if d1 = DR then p else z))))"
      by (rule case3Trace_cases)
    show ?thesis
      unfolding Let_def
      apply (rule exI[of _ "Ref (root_addr nl hole1)"], rule exI[of _ t1], rule exI[of _ pre],
             rule exI[of _ s1], rule exI[of _ s2], rule exI[of _ s3])
      using rd body st pre e unfolding ss DR by simp
  qed
qed

lemma case3State_cells:
  "map_option (\<lambda>(z, t). (z, NIL t, Root t,
        map (\<lambda>a. (Color (cells t a), Left (cells t a), Right (cells t a), Parent (cells t a),
                   ID (cells t a))) [1, 2, 3]))
     case3State
   = Some (Ref 3, Ref 0, Ref 1,
       [(Black, Ref 2, Ref 0, Ref 0, 0), (Red, Ref 3, Ref 0, Ref 1, 1),
        (Red, Ref 0, Ref 0, Ref 2, 2)])"
  by code_simp

theorem insertFixup_case3_order_witness:
  "\<exists>t z1 t1 s1 s2 s3.
     case3State = Some (Ref 3, t)
     \<and> fixInv t 0 [(DL, 2, Lf), (DL, 1, Lf)] (Nd Lf 3 Lf)
     \<and> colorOf t 2 = Red \<and> rootcol (colorOf t) Lf = Black
     \<and> rb_parentIsLeft t (Ref 3) = Some True \<and> rb_isInner t (Ref 3) = Some False
     \<and> rb_insertFixupBody (Ref 3) t = Some (z1, t1)
     \<and> rbSteps t1 = rbSteps t @ [s1, s2, s3]
     \<and> Type s1 = StepRebalance \<and> Type s2 = StepColorChange \<and> Type s3 = StepRotateRight
     \<and> snapHas (TreeState s1) 1 Red (Some 0) \<and> snapHas (TreeState s1) 0 Black None
     \<and> snapHas (TreeState s2) 1 Black (Some 0) \<and> snapHas (TreeState s2) 0 Red None
     \<and> snapHas (TreeState s3) 1 Black None \<and> snapHas (TreeState s3) 0 Red (Some 1)"
proof -
  obtain t where st: "case3State = Some (Ref 3, t)"
    and nil: "NIL t = Ref 0" and rt: "Root t = Ref 1"
    and c1: "Color (cells t (Suc 0)) = Black" "Left (cells t (Suc 0)) = Ref 2"
      "Right (cells t (Suc 0)) = Ref 0" "Parent (cells t (Suc 0)) = Ref 0"
      "ID (cells t (Suc 0)) = 0"
    and c2: "Color (cells t 2) = Red" "Left (cells t 2) = Ref 3" "Right (cells t 2) = Ref 0"
      "Parent (cells t 2) = Ref 1" "ID (cells t 2) = 1"
    and c3: "Color (cells t 3) = Red" "Left (cells t 3) = Ref 0" "Right (cells t 3) = Ref 0"
      "Parent (cells t 3) = Ref 2" "ID (cells t 3) = 2"
    using case3State_cells by (cases case3State) auto
  have inv: "fixInv t 0 [(DL, 2, Lf), (DL, 1, Lf)] (Nd Lf 3 Lf)"
    using c1 c2 c3 by (simp add: fixInv_def shapeInv_def colInv_def colorOf_def nil rt)
  have pr: "colorOf t 2 = Red" by (simp add: colorOf_def c2)
  have ub: "rootcol (colorOf t) Lf = Black" by simp
  have "\<exists>z1 t1 pre s1 s2 s3.
      rb_parentIsLeft t (Ref 3) = Some True \<and> rb_isInner t (Ref 3) = Some False
      \<and> rb_insertFixupBody (Ref 3) t = Some (z1, t1)
      \<and> rbSteps t1 = rbSteps t @ pre @ [s1, s2, s3] \<and> map Type pre = []
      \<and> Type s1 = StepRebalance \<and> Type s2 = StepColorChange \<and> Type s3 = StepRotateRight
      \<and> snapHas (TreeState s1) 1 Red (Some 0) \<and> snapHas (TreeState s1) 0 Black None
      \<and> snapHas (TreeState s2) 1 Black (Some 0) \<and> snapHas (TreeState s2) 0 Red None
      \<and> snapHas (TreeState s3) 1 Black None \<and> snapHas (TreeState s3) 0 Red (Some 1)"
    using insertFixup_case3_order [OF inv pr ub] unfolding Let_def topID_def
    by (simp add: c1 c2)
  then obtain z1 t1 pre s1 s2 s3 where
    r: "rb_parentIsLeft t (Ref 3) = Some True" "rb_isInner t (Ref 3) = Some False"
      "rb_insertFixupBody (Ref 3) t = Some (z1, t1)"
      "rbSteps t1 = rbSteps t @ pre @ [s1, s2, s3]" "map Type pre = []"
      "Type s1 = StepRebalance" "Type s2 = StepColorChange" "Type s3 = StepRotateRight"
      "snapHas (TreeState s1) 1 Red (Some 0)" "snapHas (TreeState s1) 0 Black None"
      "snapHas (TreeState s2) 1 Black (Some 0)" "snapHas (TreeState s2) 0 Red None"
      "snapHas (TreeState s3) 1 Black None" "snapHas (TreeState s3) 0 Red (Some 1)"
    by (elim exE conjE) (rule that)
  have "pre = []" using r(5) by simp
  then have fin: "rbSteps t1 = rbSteps t @ [s1, s2, s3]" using r(4) by simp
  show ?thesis
    apply (rule exI[of _ t], rule exI[of _ z1], rule exI[of _ t1], rule exI[of _ s1],
           rule exI[of _ s2], rule exI[of _ s3])
    using fin st inv pr ub r by simp
qed

text \<open>
  The same on a run: \<open>Insert(10)\<close> after \<open>Insert(30)\<close> and \<open>Insert(20)\<close>. The steps after the
  descent and the linking, each with key, color and parent id of the nodes in its snapshot.
\<close>

lemma case3_run_trace:
  "map_option (\<lambda>(res, t).
       map (\<lambda>st. (Type st,
                  map (\<lambda>n. (snapValue n, snapColor n, snapParentID n)) (TreeState st)))
         (drop 4 (Steps res)))
     (do { t0 \<leftarrow> rb_insertAll [30, 20] NewRedBlackTree; RB_Insert 10 t0 })
   = Some [(StepRebalance, [(30, Some Black, None), (20, Some Red, Some 0), (10, Some Red, Some 1)]),
           (StepColorChange, [(30, Some Red, None), (20, Some Black, Some 0), (10, Some Red, Some 1)]),
           (StepRotateRight, [(20, Some Black, None), (10, Some Red, Some 1), (30, Some Red, Some 1)]),
           (StepComplete, [(20, Some Black, None), (10, Some Red, Some 1), (30, Some Red, Some 1)])]"
  by code_simp

end
